theory Spec2Isabelle
  imports Main "HOL-Library.Word" "HOL-Library.Sublist"
begin

unbundle bit_operations_syntax

section \<open>Port specification parser (tunnel.go, ParsePorts)\<close>

text \<open>
  \<^verbatim>\<open>type ForwardedPort struct { Local uint16; Remote uint16 }\<close>
\<close>

record ForwardedPort =
  Local :: "16 word"
  Remote :: "16 word"

subsection \<open>The two library functions the parser calls\<close>

text \<open>
  \<^verbatim>\<open>strings.Split(s, ":")\<close>: the pieces of \<open>s\<close> between the colons, in order; a string with
  \<open>n\<close> colons has \<open>n + 1\<close> pieces, some of them possibly empty.
\<close>

fun split_colon :: "string \<Rightarrow> string list" where
  "split_colon [] = [[]]"
| "split_colon (c # cs) =
     (if c = CHR '':'' then [] # split_colon cs
      else (case split_colon cs of p # ps \<Rightarrow> (c # p) # ps | [] \<Rightarrow> [[c]]))"

text \<open>
  \<^verbatim>\<open>strconv.ParseUint(s, 10, 16)\<close>. The empty string is a syntax error. The bytes are
  read left to right: a byte that is not a decimal digit is a syntax error (no sign and
  no underscore in base 10), and a digit that takes the value above \<open>1<<16 - 1\<close> is a
  range error. The first failing byte decides. Both errors are a \<^verbatim>\<open>*NumError\<close> carrying
  the whole input.
\<close>

datatype num_err = ErrSyntax | ErrRange

definition is_digit :: "char \<Rightarrow> bool" where
  "is_digit c \<longleftrightarrow> (48::nat) \<le> of_char c \<and> (of_char c :: nat) \<le> 57"

definition digit_val :: "char \<Rightarrow> nat" where
  "digit_val c = of_char c - 48"

fun parse_digits :: "nat \<Rightarrow> string \<Rightarrow> num_err + nat" where
  "parse_digits n [] = Inr n"
| "parse_digits n (c # cs) =
     (if \<not> is_digit c then Inl ErrSyntax
      else if n * 10 + digit_val c > 65535 then Inl ErrRange
      else parse_digits (n * 10 + digit_val c) cs)"

definition ParseUint :: "string \<Rightarrow> num_err + nat" where
  "ParseUint s = (if s = [] then Inl ErrSyntax else parse_digits 0 s)"

text \<open>
  \<^verbatim>\<open>strconv.Quote\<close>, byte by byte: the double quote and the backslash get a backslash, the
  control characters their escape (\<^verbatim>\<open>\a \b \f \n \r \t \v\<close>, or \<^verbatim>\<open>\x\<close> and two hex digits, also
  for \<open>0x7f\<close>), every other byte below \<open>0x80\<close> stays. A byte from \<open>0x80\<close> on is written as
  it is: what \<^verbatim>\<open>Quote\<close> does with the bytes of a printable rune in valid UTF-8.
\<close>

definition lowerhex :: "nat \<Rightarrow> char" where
  "lowerhex n = ''0123456789abcdef'' ! n"

definition quote_byte :: "char \<Rightarrow> string" where
  "quote_byte c =
     (let n = (of_char c :: nat) in
      if n = 0x22 \<or> n = 0x5C then [CHR 0x5C, c]
      else if n = 7 then [CHR 0x5C, CHR ''a'']
      else if n = 8 then [CHR 0x5C, CHR ''b'']
      else if n = 12 then [CHR 0x5C, CHR ''f'']
      else if n = 10 then [CHR 0x5C, CHR ''n'']
      else if n = 13 then [CHR 0x5C, CHR ''r'']
      else if n = 9 then [CHR 0x5C, CHR ''t'']
      else if n = 11 then [CHR 0x5C, CHR ''v'']
      else if n < 0x20 \<or> n = 0x7F then [CHR 0x5C, CHR ''x'', lowerhex (n div 16), lowerhex (n mod 16)]
      else [c])"

definition Quote :: "string \<Rightarrow> string" where
  "Quote s = [CHR 0x22] @ concat (map quote_byte s) @ [CHR 0x22]"

text \<open>The text of a \<^verbatim>\<open>*NumError\<close>: \<^verbatim>\<open>strconv.ParseUint: parsing "s": invalid syntax\<close>, with
  the input quoted by \<^verbatim>\<open>strconv.Quote\<close>.\<close>

definition num_err_text :: "string \<Rightarrow> num_err \<Rightarrow> string" where
  "num_err_text s e =
     ''strconv.ParseUint: parsing '' @ Quote s @ '': '' @
     (case e of ErrSyntax \<Rightarrow> ''invalid syntax'' | ErrRange \<Rightarrow> ''value out of range'')"

subsection \<open>ParsePorts\<close>

text \<open>One constructor for each \<^verbatim>\<open>fmt.Errorf\<close> of the function, with the values it formats.\<close>

datatype parse_error =
    InvalidPortFormat string
  | ErrorParsingLocal string num_err
  | ErrorParsingRemote string num_err
  | RemotePortZero

fun Error :: "parse_error \<Rightarrow> string" where
  "Error (InvalidPortFormat portString) = ''invalid port format '' @ [CHR 0x27] @ portString @ [CHR 0x27]"
| "Error (ErrorParsingLocal localString e) =
     ''error parsing local port '' @ [CHR 0x27] @ localString @ [CHR 0x27] @ '': '' @ num_err_text localString e"
| "Error (ErrorParsingRemote remoteString e) =
     ''error parsing remote port '' @ [CHR 0x27] @ remoteString @ [CHR 0x27] @ '': '' @ num_err_text remoteString e"
| "Error RemotePortZero = ''remote port must be > 0''"

text \<open>The body of the \<^verbatim>\<open>for\<close> loop, for one \<open>portString\<close>.\<close>

definition parse_port :: "string \<Rightarrow> parse_error + ForwardedPort" where
  "parse_port portString =
     (case (case split_colon portString of
              [p] \<Rightarrow> Inr (p, p)
            | [l, r] \<Rightarrow> Inr (if l = [] then ''0'' else l, r)
            | _ \<Rightarrow> Inl (InvalidPortFormat portString)) of
        Inl e \<Rightarrow> Inl e
      | Inr (localString, remoteString) \<Rightarrow>
          (case ParseUint localString of
             Inl e \<Rightarrow> Inl (ErrorParsingLocal localString e)
           | Inr localPort \<Rightarrow>
               (case ParseUint remoteString of
                  Inl e \<Rightarrow> Inl (ErrorParsingRemote remoteString e)
                | Inr remotePort \<Rightarrow>
                    if remotePort = 0 then Inl RemotePortZero
                    else Inr \<lparr>Local = of_nat localPort, Remote = of_nat remotePort\<rparr>)))"

text \<open>The loop: \<open>forwards\<close> is the slice built so far; an error returns \<^verbatim>\<open>nil\<close> with it.\<close>

fun ParsePorts_loop :: "ForwardedPort list \<Rightarrow> string list \<Rightarrow> parse_error + ForwardedPort list" where
  "ParsePorts_loop forwards [] = Inr forwards"
| "ParsePorts_loop forwards (portString # ports) =
     (case parse_port portString of
        Inl e \<Rightarrow> Inl e
      | Inr fp \<Rightarrow> ParsePorts_loop (forwards @ [fp]) ports)"

definition ParsePorts :: "string list \<Rightarrow> parse_error + ForwardedPort list" where
  "ParsePorts ports = ParsePorts_loop [] ports"


subsection \<open>The port-spec grammar, as the specification words it\<close>

text \<open>
  A port is a non-empty string of decimal digits whose value fits in 16 bits. A
  well-formed spec is \<open>REMOTE\<close>, \<open>LOCAL:REMOTE\<close> or \<open>:REMOTE\<close> with a remote port above
  zero; \<open>spec_pair\<close> is the forwarding pair the specification assigns to it.
\<close>

definition dec_val :: "string \<Rightarrow> nat" where
  "dec_val s = foldl (\<lambda>n c. n * 10 + digit_val c) 0 s"

definition port_text :: "string \<Rightarrow> bool" where
  "port_text s \<longleftrightarrow> s \<noteq> [] \<and> list_all is_digit s \<and> dec_val s \<le> 65535"

datatype port_spec = Bare string | Both string string | AnyLocal string

fun render :: "port_spec \<Rightarrow> string" where
  "render (Bare r) = r"
| "render (Both l r) = l @ '':'' @ r"
| "render (AnyLocal r) = '':'' @ r"

fun well_formed :: "port_spec \<Rightarrow> bool" where
  "well_formed (Bare r) \<longleftrightarrow> port_text r \<and> 0 < dec_val r"
| "well_formed (Both l r) \<longleftrightarrow> port_text l \<and> port_text r \<and> 0 < dec_val r"
| "well_formed (AnyLocal r) \<longleftrightarrow> port_text r \<and> 0 < dec_val r"

fun spec_pair :: "port_spec \<Rightarrow> ForwardedPort" where
  "spec_pair (Bare r) = \<lparr>Local = of_nat (dec_val r), Remote = of_nat (dec_val r)\<rparr>"
| "spec_pair (Both l r) = \<lparr>Local = of_nat (dec_val l), Remote = of_nat (dec_val r)\<rparr>"
| "spec_pair (AnyLocal r) = \<lparr>Local = 0, Remote = of_nat (dec_val r)\<rparr>"

definition colons :: "string \<Rightarrow> nat" where
  "colons s = count_list s CHR '':''"


section \<open>The tunnel engine (tunnel.go)\<close>

subsection \<open>Values\<close>

type_synonym byte = "8 word"

text \<open>\<^verbatim>\<open>uuid.UUID\<close>, sixteen bytes.\<close>

type_synonym uuid = "128 word"

text \<open>
  Go's \<^verbatim>\<open>error\<close> values. A context's \<^verbatim>\<open>Err()\<close> is \<^verbatim>\<open>nil\<close>, \<^verbatim>\<open>context.Canceled\<close> or
  \<^verbatim>\<open>context.DeadlineExceeded\<close>; \<open>Failure\<close> stands for any error of the transport, the
  network or a buffer, named by its text; \<open>XNew msg err\<close> is \<^verbatim>\<open>xerrors.New(msg, err)\<close> for a
  non-nil \<open>err\<close>. \<open>Wrapped\<close> and \<open>Multi\<close> are the values the two candidate readings of the
  xerrors library below build. A possibly-nil \<^verbatim>\<open>error\<close> is an \<open>error option\<close>.
\<close>

datatype ctx_error = Canceled | DeadlineExceeded

datatype error =
    CtxErr ctx_error
  | EOF
  | Failure string
  | XNew string error
  | Wrapped error error
  | Multi "error list"

text \<open>
  A \<^verbatim>\<open>context.Context\<close> at one moment: what \<^verbatim>\<open>Err()\<close> and \<^verbatim>\<open>context.Cause\<close> return. Its
  \<^verbatim>\<open>Done()\<close> channel is closed exactly when \<open>Err\<close> is not \<^verbatim>\<open>nil\<close>.
\<close>

record "context" =
  Err :: "ctx_error option"
  Cause :: "error option"

definition background :: "context" where
  "background = \<lparr>Err = None, Cause = None\<rparr>"

text \<open>
  The \<^verbatim>\<open>CancelCauseFunc\<close> of \<^verbatim>\<open>context.WithCancelCause\<close>: the first cancellation wins, \<open>Err\<close>
  becomes \<^verbatim>\<open>Canceled\<close>, and a \<^verbatim>\<open>nil\<close> cause is recorded as \<^verbatim>\<open>Canceled\<close>. A plain
  \<^verbatim>\<open>CancelFunc\<close>, and a parent cancelled by one, is \<open>cancel None\<close>.
\<close>

definition cancel :: "error option \<Rightarrow> context \<Rightarrow> context" where
  "cancel cause ctx =
     (if Err ctx \<noteq> None then ctx
      else \<lparr>Err = Some Canceled,
            Cause = Some (case cause of None \<Rightarrow> CtxErr Canceled | Some c \<Rightarrow> c)\<rparr>)"

text \<open>
  The functions of libraries outside the repository whose results the code passes on
  without looking at them: \<^verbatim>\<open>uuid.Parse\<close> (the code logs its error and uses the returned id
  all the same), \<^verbatim>\<open>xerrors.WithWrapper\<close> and \<^verbatim>\<open>xerrors.Append\<close>. The model takes them as
  parameters.
\<close>

record lib =
  uuid_Parse :: "string \<Rightarrow> uuid"
  WithWrapper :: "error option \<Rightarrow> error option \<Rightarrow> error option"
  Append :: "error option \<Rightarrow> error option \<Rightarrow> error option"

text \<open>\<^verbatim>\<open>pb.SocketDataRequest\<close>, the outbound frame; \<open>RequestId\<close> is the id whose \<^verbatim>\<open>String()\<close>
  the code sends. \<^verbatim>\<open>pb.SocketDataResponse\<close>, the inbound frame, with the id as received.\<close>

record SocketDataRequest =
  RequestId :: uuid
  Data :: "byte list"
  ShouldClose :: bool

record SocketDataResponse =
  RequestId_in :: string
  Data_in :: "byte list"
  ShouldClose_in :: bool

text \<open>The three kinds of goroutine that touch a session: its \<^verbatim>\<open>ReadFromSession\<close>, the pair's
  \<^verbatim>\<open>SendData\<close> and the pair's \<^verbatim>\<open>ReceiveData\<close>.\<close>

datatype task = Reader | Sender | Receiver

text \<open>
  \<^verbatim>\<open>common.Session\<close>: \<open>Buf\<close> is the unread part of the \<^verbatim>\<open>bytes.Buffer\<close>, \<open>Mutex\<close> the embedded
  \<^verbatim>\<open>sync.Mutex\<close> (\<open>None\<close> when unlocked; the holder is kept for the statements about
  locking). \<open>Written\<close> lists the payloads \<^verbatim>\<open>Conn.Write\<close> accepted and \<open>Closed\<close> tells
  whether \<^verbatim>\<open>Close\<close> ran.
\<close>

record Session =
  Id :: uuid
  Buf :: "byte list"
  Open :: bool
  Mutex :: "task option"
  Written :: "byte list list"
  Closed :: bool

text \<open>Modelled from the spec: \<^verbatim>\<open>common.NewSessionFromStream\<close> of the ktunnel library, which
  is not under src/. The specification has it construct and register a Session around the
  dialed connection; the buffer starts empty, and the session starts open (the first frame
  of a new session carries \<open>shouldClose\<close> false in the specification's scenario).\<close>

definition NewSessionFromStream :: "uuid \<Rightarrow> Session" where
  "NewSessionFromStream requestId =
     \<lparr>Id = requestId, Buf = [], Open = True, Mutex = None, Written = [], Closed = False\<rparr>"

text \<open>Modelled from the spec: \<^verbatim>\<open>Session.Close\<close> of the ktunnel library, which is not under
  src/. The specification has it release the local connection and be safe to call again.\<close>

definition Close :: "Session \<Rightarrow> Session" where
  "Close session = session\<lparr>Closed := True\<rparr>"

text \<open>
  \<^verbatim>\<open>bytes.Buffer.Read(p)\<close> with \<open>n = len(p)\<close>: the bytes copied, the buffer left, the error.
  An empty buffer gives \<^verbatim>\<open>io.EOF\<close> unless \<open>n = 0\<close>.
\<close>

definition Buf_Read :: "byte list \<Rightarrow> nat \<Rightarrow> byte list \<times> byte list \<times> error option" where
  "Buf_Read buf n =
     (if buf = [] then ([], [], if n = 0 then None else Some EOF)
      else (take n buf, drop n buf, None))"

subsection \<open>Where each goroutine stands\<close>

text \<open>\<^verbatim>\<open>ReadFromSession\<close>, by the statement it is about to run.\<close>

datatype reader_pc =
    RRead                     \<comment> \<open>\<^verbatim>\<open>conn.Read(buff)\<close>\<close>
  | RFailed                   \<comment> \<open>the read returned an error: before \<^verbatim>\<open>session.Open = false\<close>\<close>
  | RPublishLast              \<comment> \<open>the last \<^verbatim>\<open>sessionsOut <- session\<close>, then return\<close>
  | RSelect "byte list"       \<comment> \<open>the \<^verbatim>\<open>select\<close> on \<^verbatim>\<open>session.Context.Done()\<close>, holding \<^verbatim>\<open>buff[0:br]\<close>\<close>
  | RLock "byte list"         \<comment> \<open>\<^verbatim>\<open>session.Lock()\<close>\<close>
  | RWrite "byte list"        \<comment> \<open>lock held: \<^verbatim>\<open>if br > 0 { session.Buf.Write(...) }\<close>\<close>
  | RUnlock "error option"    \<comment> \<open>lock held: \<^verbatim>\<open>session.Unlock()\<close>, with \<open>err\<close> as it is then\<close>
  | RPublish                  \<comment> \<open>\<^verbatim>\<open>sessionsOut <- session\<close>, then the next round\<close>
  | RDone                     \<comment> \<open>returned\<close>

text \<open>\<^verbatim>\<open>SendData\<close>.\<close>

datatype sender_pc =
    SSelect                       \<comment> \<open>the \<^verbatim>\<open>select\<close>\<close>
  | SLock uuid                    \<comment> \<open>a session was received: \<^verbatim>\<open>session.Lock()\<close>\<close>
  | SDrain uuid                   \<comment> \<open>lock held: \<^verbatim>\<open>Buf.Len()\<close>, \<^verbatim>\<open>make\<close>, \<^verbatim>\<open>Buf.Read\<close>\<close>
  | SBuild uuid "byte list"       \<comment> \<open>lock held: build \<open>resp\<close>, reading \<^verbatim>\<open>session.Open\<close>\<close>
  | SUnlock uuid SocketDataRequest  \<comment> \<open>lock held: \<^verbatim>\<open>session.Unlock()\<close>\<close>
  | SSend SocketDataRequest       \<comment> \<open>\<^verbatim>\<open>stream.Send(resp)\<close>\<close>
  | SReturned "error option"

text \<open>\<^verbatim>\<open>ReceiveData\<close>, with \<^verbatim>\<open>handleStreamData\<close> inlined.\<close>

datatype receiver_pc =
    VRecv                               \<comment> \<open>\<^verbatim>\<open>st.Recv()\<close>\<close>
  | VSelect SocketDataResponse          \<comment> \<open>the \<^verbatim>\<open>select\<close> on \<^verbatim>\<open>st.Context().Done()\<close>\<close>
  | VDial SocketDataResponse uuid       \<comment> \<open>unknown id: \<^verbatim>\<open>net.DialTimeout\<close>\<close>
  | VReply uuid                         \<comment> \<open>dial failed: \<^verbatim>\<open>st.Send(resp)\<close>\<close>
  | VHandle SocketDataResponse uuid     \<comment> \<open>\<^verbatim>\<open>handleStreamData\<close>: the test of \<^verbatim>\<open>session.Open\<close>\<close>
  | VHLock SocketDataResponse uuid      \<comment> \<open>\<^verbatim>\<open>session.Lock()\<close>\<close>
  | VHWrite SocketDataResponse uuid     \<comment> \<open>lock held: \<^verbatim>\<open>session.Conn.Write(data)\<close>\<close>
  | VHUnlock uuid "error option"        \<comment> \<open>lock held: \<^verbatim>\<open>session.Unlock()\<close>\<close>
  | VReturned "error option"

text \<open>
  One forwarding pair: the registry, the readers started so far, the two loops, every call
  of \<^verbatim>\<open>stream.Send\<close> with its result (oldest first), and for each session every chunk
  \<^verbatim>\<open>conn.Read\<close> returned (oldest first). The registry behind \<^verbatim>\<open>common.GetSession\<close> is one
  for the process; the state holds the sessions of one pair, as if no other pair
  registered the ids this pair receives.
\<close>

record state =
  sessions :: "uuid \<Rightarrow> Session option"
  readers :: "uuid \<Rightarrow> reader_pc option"
  sender :: sender_pc
  receiver :: receiver_pc
  stream_sends :: "(SocketDataRequest \<times> error option) list"
  chunks :: "uuid \<Rightarrow> byte list list"

definition init :: state where
  "init = \<lparr>sessions = (\<lambda>_. None), readers = (\<lambda>_. None), sender = SSelect, receiver = VRecv,
           stream_sends = [], chunks = (\<lambda>_. [])\<rparr>"

text \<open>The frames the transport accepted, in order.\<close>

definition sent :: "state \<Rightarrow> SocketDataRequest list" where
  "sent s = map fst (filter (\<lambda>(f, r). r = None) (stream_sends s))"

definition payload :: "uuid \<Rightarrow> SocketDataRequest list \<Rightarrow> byte list" where
  "payload i fs = concat (map Data (filter (\<lambda>f. RequestId f = i) fs))"

definition upd :: "uuid \<Rightarrow> (Session \<Rightarrow> Session) \<Rightarrow> state \<Rightarrow> state" where
  "upd i f s =
     (case sessions s i of None \<Rightarrow> s
      | Some x \<Rightarrow> s\<lparr>sessions := (sessions s)(i := Some (f x))\<rparr>)"

subsection \<open>The steps of the goroutines\<close>

text \<open>
  One action is one statement (or a run of statements that touch nothing shared) of one
  goroutine, together with what the environment answers: the result of a read, a write, a
  send, a receive or a dial, and the state of a context at a \<^verbatim>\<open>select\<close>. A step that its
  goroutine cannot take in the state (another statement is next, or the mutex is taken)
  is \<open>None\<close>.
\<close>

datatype action =
    R_Read uuid "byte list" "error option"
  | R_MarkClosed uuid
  | R_Select uuid bool
  | R_Lock uuid
  | R_Write uuid nat "error option"
  | R_Unlock uuid
  | Publish uuid
  | S_Done "context"
  | S_Lock
  | S_Drain
  | S_Build
  | S_Unlock
  | S_Send "error option"
  | V_Recv "error + SocketDataResponse"
  | V_Select "context" "error option"
  | V_Dial "error option"
  | V_Reply "error option"
  | V_Handle
  | V_HLock
  | V_HWrite "error option"
  | V_HUnlock

subsubsection \<open>ReadFromSession\<close>

text \<open>\<^verbatim>\<open>br, err := conn.Read(buff)\<close> returns the chunk \<open>c\<close> and \<open>err\<close>.\<close>

definition r_read :: "uuid \<Rightarrow> byte list \<Rightarrow> error option \<Rightarrow> state \<Rightarrow> state option" where
  "r_read i c err s =
     (case readers s i of
        Some RRead \<Rightarrow>
          Some (s\<lparr>readers := (readers s)(i := Some (if err \<noteq> None then RFailed else RSelect c)),
                 chunks := (chunks s)(i := chunks s i @ [c])\<rparr>)
      | _ \<Rightarrow> None)"

text \<open>\<^verbatim>\<open>session.Open = false\<close>, without the lock.\<close>

definition r_mark_closed :: "uuid \<Rightarrow> state \<Rightarrow> state option" where
  "r_mark_closed i s =
     (case readers s i of
        Some RFailed \<Rightarrow>
          Some ((upd i (\<lambda>x. x\<lparr>Open := False\<rparr>) s)\<lparr>readers := (readers s)(i := Some RPublishLast)\<rparr>)
      | _ \<Rightarrow> None)"

text \<open>The \<^verbatim>\<open>select\<close>: \<open>done\<close> tells whether \<^verbatim>\<open>session.Context.Done()\<close> is closed.\<close>

definition r_select :: "uuid \<Rightarrow> bool \<Rightarrow> state \<Rightarrow> state option" where
  "r_select i done s =
     (case readers s i of
        Some (RSelect c) \<Rightarrow>
          Some (s\<lparr>readers := (readers s)(i := Some (if done then RDone else RLock c))\<rparr>)
      | _ \<Rightarrow> None)"

definition r_lock :: "uuid \<Rightarrow> state \<Rightarrow> state option" where
  "r_lock i s =
     (case (readers s i, sessions s i) of
        (Some (RLock c), Some x) \<Rightarrow>
          if Mutex x = None
          then Some ((upd i (\<lambda>x. x\<lparr>Mutex := Some Reader\<rparr>) s)\<lparr>readers := (readers s)(i := Some (RWrite c))\<rparr>)
          else None
      | _ \<Rightarrow> None)"

text \<open>
  \<^verbatim>\<open>if br > 0 { _, err = session.Buf.Write(buff[0:br]) }\<close>. \<^verbatim>\<open>bytes.Buffer.Write\<close> is
  documented to return a \<^verbatim>\<open>nil\<close> error always; the source branches on the error, so the
  outcome is an input here: \<open>werr\<close>, and with an error the count \<open>n\<close> of bytes that went in.
\<close>

definition r_write :: "uuid \<Rightarrow> nat \<Rightarrow> error option \<Rightarrow> state \<Rightarrow> state option" where
  "r_write i n werr s =
     (case readers s i of
        Some (RWrite c) \<Rightarrow>
          if 0 < length c
          then Some ((upd i (\<lambda>x. x\<lparr>Buf := Buf x @ (if werr = None then c else take n c)\<rparr>) s)
                      \<lparr>readers := (readers s)(i := Some (RUnlock werr))\<rparr>)
          else Some (s\<lparr>readers := (readers s)(i := Some (RUnlock None))\<rparr>)
      | _ \<Rightarrow> None)"

text \<open>\<^verbatim>\<open>session.Unlock()\<close>, then \<^verbatim>\<open>if err != nil { return }\<close>.\<close>

definition r_unlock :: "uuid \<Rightarrow> state \<Rightarrow> state option" where
  "r_unlock i s =
     (case readers s i of
        Some (RUnlock err) \<Rightarrow>
          Some ((upd i (\<lambda>x. x\<lparr>Mutex := None\<rparr>) s)
                  \<lparr>readers := (readers s)(i := Some (if err \<noteq> None then RDone else RPublish))\<rparr>)
      | _ \<Rightarrow> None)"

text \<open>
  The unbuffered channel \<open>sessions\<close>: a reader blocked in \<^verbatim>\<open>sessionsOut <- session\<close> meets
  \<^verbatim>\<open>SendData\<close> at its \<^verbatim>\<open>select\<close>.
\<close>

definition publish :: "uuid \<Rightarrow> state \<Rightarrow> state option" where
  "publish i s =
     (case (sender s, readers s i) of
        (SSelect, Some RPublish) \<Rightarrow>
          Some (s\<lparr>sender := SLock i, readers := (readers s)(i := Some RRead)\<rparr>)
      | (SSelect, Some RPublishLast) \<Rightarrow>
          Some (s\<lparr>sender := SLock i, readers := (readers s)(i := Some RDone)\<rparr>)
      | _ \<Rightarrow> None)"

subsubsection \<open>SendData\<close>

text \<open>\<^verbatim>\<open>case <-stream.Context().Done()\<close>, with the stream's context as it is then.\<close>

definition s_done :: "context \<Rightarrow> state \<Rightarrow> state option" where
  "s_done c s =
     (case (sender s, Err c) of
        (SSelect, Some e) \<Rightarrow>
          Some (s\<lparr>sender := SReturned (if e = Canceled then None else Some (CtxErr e))\<rparr>)
      | _ \<Rightarrow> None)"

definition s_lock :: "state \<Rightarrow> state option" where
  "s_lock s =
     (case sender s of
        SLock i \<Rightarrow>
          (case sessions s i of
             Some x \<Rightarrow>
               if Mutex x = None
               then Some ((upd i (\<lambda>x. x\<lparr>Mutex := Some Sender\<rparr>) s)\<lparr>sender := SDrain i\<rparr>)
               else None
           | None \<Rightarrow> None)
      | _ \<Rightarrow> None)"

text \<open>
  \<^verbatim>\<open>bys := session.Buf.Len(); bytes := make([]byte, bys); _, err := session.Buf.Read(bytes)\<close>
  and \<^verbatim>\<open>if err != nil { return err }\<close>, which leaves the mutex locked.
\<close>

definition s_drain :: "state \<Rightarrow> state option" where
  "s_drain s =
     (case sender s of
        SDrain i \<Rightarrow>
          (case sessions s i of
             Some x \<Rightarrow>
               (let bys = length (Buf x);
                    (got, rest, err) = Buf_Read (Buf x) bys;
                    bytes = got @ replicate (bys - length got) 0
                in Some ((upd i (\<lambda>x. x\<lparr>Buf := rest\<rparr>) s)
                           \<lparr>sender := (if err \<noteq> None then SReturned err else SBuild i bytes)\<rparr>))
           | None \<Rightarrow> None)
      | _ \<Rightarrow> None)"

text \<open>\<^verbatim>\<open>resp := &pb.SocketDataRequest{session.Id.String(), bytes, !session.Open}\<close>.\<close>

definition s_build :: "state \<Rightarrow> state option" where
  "s_build s =
     (case sender s of
        SBuild i bytes \<Rightarrow>
          (case sessions s i of
             Some x \<Rightarrow>
               Some (s\<lparr>sender := SUnlock i \<lparr>RequestId = Id x, Data = bytes, ShouldClose = \<not> Open x\<rparr>\<rparr>)
           | None \<Rightarrow> None)
      | _ \<Rightarrow> None)"

definition s_unlock :: "state \<Rightarrow> state option" where
  "s_unlock s =
     (case sender s of
        SUnlock i resp \<Rightarrow> Some ((upd i (\<lambda>x. x\<lparr>Mutex := None\<rparr>) s)\<lparr>sender := SSend resp\<rparr>)
      | _ \<Rightarrow> None)"

text \<open>\<^verbatim>\<open>err = stream.Send(resp)\<close> and \<^verbatim>\<open>if err != nil { return err }\<close>.\<close>

definition s_send :: "error option \<Rightarrow> state \<Rightarrow> state option" where
  "s_send res s =
     (case sender s of
        SSend resp \<Rightarrow>
          Some (s\<lparr>stream_sends := stream_sends s @ [(resp, res)],
                 sender := (if res \<noteq> None then SReturned res else SSelect)\<rparr>)
      | _ \<Rightarrow> None)"

subsubsection \<open>ReceiveData and handleStreamData\<close>

definition v_recv :: "error + SocketDataResponse \<Rightarrow> state \<Rightarrow> state option" where
  "v_recv r s =
     (case receiver s of
        VRecv \<Rightarrow>
          Some (s\<lparr>receiver :=
                   (case r of
                      Inl err \<Rightarrow> VReturned (Some (XNew ''error reading from stream'' err))
                    | Inr m \<Rightarrow> VSelect m)\<rparr>)
      | _ \<Rightarrow> None)"

text \<open>
  The \<^verbatim>\<open>select\<close>, with the stream's context \<open>c\<close> as it is then. When \<^verbatim>\<open>Done()\<close> is closed,
  \<open>Err\<close> is not \<^verbatim>\<open>nil\<close>, so \<^verbatim>\<open>errors.Is(err, context.Canceled) || err == nil\<close> is the test
  \<open>e = Canceled\<close>; \<open>cs\<close> is what \<^verbatim>\<open>st.CloseSend()\<close> returns. In the \<^verbatim>\<open>default\<close> branch the id
  is parsed and looked up; for a known session \<^verbatim>\<open>m.ShouldClose\<close> clears \<^verbatim>\<open>session.Open\<close>,
  without the lock.
\<close>

definition v_select :: "lib \<Rightarrow> context \<Rightarrow> error option \<Rightarrow> state \<Rightarrow> state option" where
  "v_select L c cs s =
     (case receiver s of
        VSelect m \<Rightarrow>
          (case Err c of
             Some e \<Rightarrow>
               Some (s\<lparr>receiver :=
                        VReturned (if e = Canceled then cs else WithWrapper L (Some (CtxErr e)) cs)\<rparr>)
           | None \<Rightarrow>
               (let requestId = uuid_Parse L (RequestId_in m) in
                case sessions s requestId of
                  None \<Rightarrow> Some (s\<lparr>receiver := VDial m requestId\<rparr>)
                | Some x \<Rightarrow>
                    Some ((if ShouldClose_in m then upd requestId (\<lambda>x. x\<lparr>Open := False\<rparr>) s else s)
                            \<lparr>receiver := VHandle m requestId\<rparr>)))
      | _ \<Rightarrow> None)"

text \<open>
  \<^verbatim>\<open>net.DialTimeout("tcp", ":port", 500ms)\<close> returns \<open>r\<close>. On success the session is
  registered, its reader is started and \<^verbatim>\<open>handleStreamData\<close> is next.
\<close>

definition v_dial :: "error option \<Rightarrow> state \<Rightarrow> state option" where
  "v_dial r s =
     (case receiver s of
        VDial m requestId \<Rightarrow>
          (case r of
             Some err \<Rightarrow> Some (s\<lparr>receiver := VReply requestId\<rparr>)
           | None \<Rightarrow>
               Some (s\<lparr>sessions := (sessions s)(requestId := Some (NewSessionFromStream requestId)),
                      readers := (readers s)(requestId := Some RRead),
                      receiver := VHandle m requestId\<rparr>))
      | _ \<Rightarrow> None)"

text \<open>\<^verbatim>\<open>st.Send(&pb.SocketDataRequest{RequestId: requestId.String(), ShouldClose: true})\<close>;
  its error is logged, and \<^verbatim>\<open>continue\<close>.\<close>

definition v_reply :: "error option \<Rightarrow> state \<Rightarrow> state option" where
  "v_reply res s =
     (case receiver s of
        VReply requestId \<Rightarrow>
          Some (s\<lparr>stream_sends :=
                   stream_sends s @ [(\<lparr>RequestId = requestId, Data = [], ShouldClose = True\<rparr>, res)],
                 receiver := VRecv\<rparr>)
      | _ \<Rightarrow> None)"

text \<open>\<^verbatim>\<open>handleStreamData\<close>: \<^verbatim>\<open>if session.Open == false { session.Close(); return }\<close>, then
  \<^verbatim>\<open>if len(data) > 0\<close>.\<close>

definition v_handle :: "state \<Rightarrow> state option" where
  "v_handle s =
     (case receiver s of
        VHandle m requestId \<Rightarrow>
          (case sessions s requestId of
             Some x \<Rightarrow>
               if Open x = False then Some ((upd requestId Close s)\<lparr>receiver := VRecv\<rparr>)
               else if 0 < length (Data_in m) then Some (s\<lparr>receiver := VHLock m requestId\<rparr>)
               else Some (s\<lparr>receiver := VRecv\<rparr>)
           | None \<Rightarrow> None)
      | _ \<Rightarrow> None)"

definition v_hlock :: "state \<Rightarrow> state option" where
  "v_hlock s =
     (case receiver s of
        VHLock m requestId \<Rightarrow>
          (case sessions s requestId of
             Some x \<Rightarrow>
               if Mutex x = None
               then Some ((upd requestId (\<lambda>x. x\<lparr>Mutex := Some Receiver\<rparr>) s)\<lparr>receiver := VHWrite m requestId\<rparr>)
               else None
           | None \<Rightarrow> None)
      | _ \<Rightarrow> None)"

text \<open>\<^verbatim>\<open>_, err := session.Conn.Write(data)\<close> returns \<open>res\<close>.\<close>

definition v_hwrite :: "error option \<Rightarrow> state \<Rightarrow> state option" where
  "v_hwrite res s =
     (case receiver s of
        VHWrite m requestId \<Rightarrow>
          Some ((if res = None then upd requestId (\<lambda>x. x\<lparr>Written := Written x @ [Data_in m]\<rparr>) s else s)
                  \<lparr>receiver := VHUnlock requestId res\<rparr>)
      | _ \<Rightarrow> None)"

text \<open>\<^verbatim>\<open>session.Unlock()\<close>, then \<^verbatim>\<open>if err != nil { session.Close(); return }\<close>.\<close>

definition v_hunlock :: "state \<Rightarrow> state option" where
  "v_hunlock s =
     (case receiver s of
        VHUnlock requestId err \<Rightarrow>
          Some ((upd requestId (\<lambda>x. if err \<noteq> None then Close (x\<lparr>Mutex := None\<rparr>) else x\<lparr>Mutex := None\<rparr>) s)
                  \<lparr>receiver := VRecv\<rparr>)
      | _ \<Rightarrow> None)"

subsubsection \<open>Runs\<close>

fun step :: "lib \<Rightarrow> action \<Rightarrow> state \<Rightarrow> state option" where
  "step L (R_Read i c err) s = r_read i c err s"
| "step L (R_MarkClosed i) s = r_mark_closed i s"
| "step L (R_Select i done) s = r_select i done s"
| "step L (R_Lock i) s = r_lock i s"
| "step L (R_Write i n werr) s = r_write i n werr s"
| "step L (R_Unlock i) s = r_unlock i s"
| "step L (Publish i) s = publish i s"
| "step L (S_Done c) s = s_done c s"
| "step L S_Lock s = s_lock s"
| "step L S_Drain s = s_drain s"
| "step L S_Build s = s_build s"
| "step L S_Unlock s = s_unlock s"
| "step L (S_Send res) s = s_send res s"
| "step L (V_Recv r) s = v_recv r s"
| "step L (V_Select c cs) s = v_select L c cs s"
| "step L (V_Dial r) s = v_dial r s"
| "step L (V_Reply res) s = v_reply res s"
| "step L V_Handle s = v_handle s"
| "step L V_HLock s = v_hlock s"
| "step L (V_HWrite res) s = v_hwrite res s"
| "step L V_HUnlock s = v_hunlock s"

text \<open>A schedule is a list of actions; it is a run when every step can be taken.\<close>

fun exec :: "lib \<Rightarrow> action list \<Rightarrow> state \<Rightarrow> state option" where
  "exec L [] s = Some s"
| "exec L (a # as) s = (case step L a s of None \<Rightarrow> None | Some s' \<Rightarrow> exec L as s')"

text \<open>Whether goroutine \<open>t\<close> holds the mutex of session \<open>i\<close>.\<close>

definition held :: "state \<Rightarrow> task \<Rightarrow> uuid \<Rightarrow> bool" where
  "held s t i = (case sessions s i of None \<Rightarrow> False | Some x \<Rightarrow> Mutex x = Some t)"

text \<open>The bytes \<^verbatim>\<open>SendData\<close> has taken out of the buffer of session \<open>i\<close> and not yet handed to
  \<^verbatim>\<open>stream.Send\<close>.\<close>

fun in_flight :: "uuid \<Rightarrow> sender_pc \<Rightarrow> byte list" where
  "in_flight i (SBuild j bytes) = (if j = i then bytes else [])"
| "in_flight i (SUnlock j resp) = (if RequestId resp = i then Data resp else [])"
| "in_flight i (SSend resp) = (if RequestId resp = i then Data resp else [])"
| "in_flight i _ = []"

subsection \<open>The libraries behind the parameters\<close>

text \<open>
  \<^verbatim>\<open>xerrors.WithWrapper\<close> and \<^verbatim>\<open>xerrors.Append\<close> of go-xerrors, which is outside the
  repository. \<^verbatim>\<open>WithWrapper(wrapper, err)\<close> is \<^verbatim>\<open>nil\<close> when \<open>err\<close> is \<^verbatim>\<open>nil\<close>. \<^verbatim>\<open>Append\<close> skips
  \<^verbatim>\<open>nil\<close> errors, returns a single error as it is and otherwise a list of errors.
\<close>

fun xerrors_Append :: "error option \<Rightarrow> error option \<Rightarrow> error option" where
  "xerrors_Append errs None = errs"
| "xerrors_Append None (Some e) = Some e"
| "xerrors_Append (Some (Multi es)) (Some e) = Some (Multi (es @ [e]))"
| "xerrors_Append (Some e') (Some e) = Some (Multi [e', e])"

fun xerrors_WithWrapper :: "error option \<Rightarrow> error option \<Rightarrow> error option" where
  "xerrors_WithWrapper wrapper None = None"
| "xerrors_WithWrapper None (Some e) = Some e"
| "xerrors_WithWrapper (Some w) (Some e) = Some (Wrapped w e)"

text \<open>
  \<^verbatim>\<open>uuid.Parse\<close> of github.com/google/uuid, outside the repository, as of its version 1.3;
  only the id it returns, since the code ignores the error but for a log line. The id
  starts as sixteen zero bytes. A text of 32 bytes is read as sixteen hex pairs; texts of
  36, 38 and 45 bytes are the hyphenated form, the same after one leading byte, and the
  same after \<^verbatim>\<open>urn:uuid:\<close> in any case; every other length gives the zero id. A hex pair
  that fails ends the parse with the bytes filled so far.
\<close>

definition xvalue :: "char \<Rightarrow> byte" where
  "xvalue c =
     (let n = (of_char c :: nat) in
      if 48 \<le> n \<and> n \<le> 57 then of_nat (n - 48)
      else if 65 \<le> n \<and> n \<le> 70 then of_nat (n - 55)
      else if 97 \<le> n \<and> n \<le> 102 then of_nat (n - 87)
      else 255)"

definition xtob :: "char \<Rightarrow> char \<Rightarrow> byte \<times> bool" where
  "xtob x1 x2 = (push_bit 4 (xvalue x1) OR xvalue x2, xvalue x1 \<noteq> 255 \<and> xvalue x2 \<noteq> 255)"

text \<open>The id as a number, first byte highest; missing bytes are zero.\<close>

definition uuid_of :: "byte list \<Rightarrow> uuid" where
  "uuid_of bs = foldl (\<lambda>w b. push_bit 8 w OR ucast b) 0 (take 16 (bs @ replicate 16 0))"

text \<open>The loop of the hyphenated form stores a pair only when it is valid; the loop of the
  32-byte form stores it before the test.\<close>

fun hex_pairs :: "string \<Rightarrow> nat list \<Rightarrow> byte list" where
  "hex_pairs s [] = []"
| "hex_pairs s (x # xs) =
     (case xtob (s ! x) (s ! Suc x) of (v, ok) \<Rightarrow> if ok then v # hex_pairs s xs else [])"

fun hex_pairs32 :: "string \<Rightarrow> nat list \<Rightarrow> byte list" where
  "hex_pairs32 s [] = []"
| "hex_pairs32 s (i # is) =
     (case xtob (s ! (i * 2)) (s ! (i * 2 + 1)) of (v, ok) \<Rightarrow> if ok then v # hex_pairs32 s is else [v])"

definition hyphenated :: "string \<Rightarrow> uuid" where
  "hyphenated s =
     (if s ! 8 \<noteq> CHR ''-'' \<or> s ! 13 \<noteq> CHR ''-'' \<or> s ! 18 \<noteq> CHR ''-'' \<or> s ! 23 \<noteq> CHR ''-'' then 0
      else uuid_of (hex_pairs s [0, 2, 4, 6, 9, 11, 14, 16, 19, 21, 24, 26, 28, 30, 32, 34]))"

definition lower :: "char \<Rightarrow> char" where
  "lower c = (if (65::nat) \<le> of_char c \<and> (of_char c :: nat) \<le> 90 then char_of (of_char c + (32::nat)) else c)"

definition Parse :: "string \<Rightarrow> uuid" where
  "Parse s =
     (if length s = 36 then hyphenated s
      else if length s = 45 then (if map lower (take 9 s) = ''urn:uuid:'' then hyphenated (drop 9 s) else 0)
      else if length s = 38 then hyphenated (drop 1 s)
      else if length s = 32 then uuid_of (hex_pairs32 s [0..<16])
      else 0)"

definition go_lib :: lib where
  "go_lib = \<lparr>uuid_Parse = Parse, WithWrapper = xerrors_WithWrapper, Append = xerrors_Append\<rparr>"

subsection \<open>What holds in every state a run reaches\<close>

text \<open>The session a loop is working on, and whether it is between \<^verbatim>\<open>Lock\<close> and \<^verbatim>\<open>Unlock\<close>.\<close>

fun reader_cs :: "reader_pc \<Rightarrow> bool" where
  "reader_cs (RWrite c) = True"
| "reader_cs (RUnlock err) = True"
| "reader_cs _ = False"

fun sender_on :: "sender_pc \<Rightarrow> uuid \<Rightarrow> bool" where
  "sender_on (SLock j) i = (j = i)"
| "sender_on (SDrain j) i = (j = i)"
| "sender_on (SBuild j bytes) i = (j = i)"
| "sender_on (SUnlock j resp) i = (j = i)"
| "sender_on (SSend resp) i = (RequestId resp = i)"
| "sender_on _ i = False"

fun sender_cs :: "sender_pc \<Rightarrow> uuid \<Rightarrow> bool" where
  "sender_cs (SDrain j) i = (j = i)"
| "sender_cs (SBuild j bytes) i = (j = i)"
| "sender_cs (SUnlock j resp) i = (j = i)"
| "sender_cs _ i = False"

fun well_tagged :: "sender_pc \<Rightarrow> bool" where
  "well_tagged (SUnlock j resp) = (RequestId resp = j)"
| "well_tagged _ = True"

fun sender_running :: "sender_pc \<Rightarrow> bool" where
  "sender_running (SReturned err) = False"
| "sender_running _ = True"

fun receiver_on :: "receiver_pc \<Rightarrow> uuid \<Rightarrow> bool" where
  "receiver_on (VHandle m j) i = (j = i)"
| "receiver_on (VHLock m j) i = (j = i)"
| "receiver_on (VHWrite m j) i = (j = i)"
| "receiver_on (VHUnlock j err) i = (j = i)"
| "receiver_on _ i = False"

fun receiver_cs :: "receiver_pc \<Rightarrow> uuid \<Rightarrow> bool" where
  "receiver_cs (VHWrite m j) i = (j = i)"
| "receiver_cs (VHUnlock j err) i = (j = i)"
| "receiver_cs _ i = False"

fun receiver_new :: "receiver_pc \<Rightarrow> uuid \<Rightarrow> bool" where
  "receiver_new (VDial m j) i = (j = i)"
| "receiver_new (VReply j) i = (j = i)"
| "receiver_new _ i = False"

text \<open>The goroutines that are between \<^verbatim>\<open>Lock\<close> and \<^verbatim>\<open>Unlock\<close> of session \<open>i\<close>.\<close>

definition owner :: "state \<Rightarrow> uuid \<Rightarrow> task list" where
  "owner s i =
     (case readers s i of Some pc \<Rightarrow> if reader_cs pc then [Reader] else [] | None \<Rightarrow> [])
     @ (if sender_cs (sender s) i then [Sender] else [])
     @ (if receiver_cs (receiver s) i then [Receiver] else [])"

text \<open>The chunk a reader has read and not yet appended: \<open>Some []\<close> between two rounds,
  \<open>None\<close> once the reader has dropped bytes or is on its way out.\<close>

fun carried :: "reader_pc \<Rightarrow> byte list option" where
  "carried RRead = Some []"
| "carried (RSelect c) = Some c"
| "carried (RLock c) = Some c"
| "carried (RWrite c) = Some c"
| "carried (RUnlock None) = Some []"
| "carried RPublish = Some []"
| "carried _ = None"

definition ok :: "state \<Rightarrow> uuid \<Rightarrow> bool" where
  "ok s i =
     (case sessions s i of
        None \<Rightarrow>
          readers s i = None \<and> \<not> sender_on (sender s) i \<and> \<not> receiver_on (receiver s) i
          \<and> chunks s i = [] \<and> payload i (sent s) = []
      | Some x \<Rightarrow>
          Id x = i \<and> \<not> receiver_new (receiver s) i
          \<and> owner s i = (case Mutex x of None \<Rightarrow> [] | Some t \<Rightarrow> [t])
          \<and> prefix (payload i (sent s)) (concat (chunks s i))
          \<and> (case readers s i of
                None \<Rightarrow> False
              | Some pc \<Rightarrow>
                  sender_running (sender s) \<longrightarrow>
                  (case carried pc of
                     Some c \<Rightarrow>
                       payload i (sent s) @ in_flight i (sender s) @ Buf x @ c = concat (chunks s i)
                   | None \<Rightarrow>
                       prefix (payload i (sent s) @ in_flight i (sender s) @ Buf x)
                         (concat (chunks s i)))))"

definition invariant :: "state \<Rightarrow> bool" where
  "invariant s \<longleftrightarrow> well_tagged (sender s) \<and> (\<forall>i. ok s i)"

subsection \<open>What the reader drops\<close>

text \<open>The chunk \<^verbatim>\<open>buff[0:br]\<close> a reader has read and not yet appended to the buffer.\<close>

fun holding :: "reader_pc \<Rightarrow> byte list" where
  "holding (RSelect c) = c"
| "holding (RLock c) = c"
| "holding (RWrite c) = c"
| "holding _ = []"

text \<open>
  The bytes of session \<open>i\<close> that an action of its reader gives up, on the three paths of
  \<^verbatim>\<open>ReadFromSession\<close> that return without appending what was read: \<^verbatim>\<open>conn.Read\<close> returned
  bytes together with an error (\<^verbatim>\<open>if err != nil { ...; return }\<close>, \<open>br\<close> is not looked at);
  the \<^verbatim>\<open>select\<close> found \<^verbatim>\<open>session.Context.Done()\<close> closed (\<^verbatim>\<open>return\<close>, with the chunk just read);
  \<^verbatim>\<open>Buf.Write\<close> returned an error after \<open>n\<close> bytes (the rest of the chunk).
\<close>

fun dropped_by :: "uuid \<Rightarrow> action \<Rightarrow> state \<Rightarrow> byte list" where
  "dropped_by i (R_Read j c err) s = (if j = i \<and> err \<noteq> None then c else [])"
| "dropped_by i (R_Select j done) s =
     (if j = i \<and> done then (case readers s i of Some pc \<Rightarrow> holding pc | None \<Rightarrow> []) else [])"
| "dropped_by i (R_Write j n werr) s =
     (if j = i \<and> werr \<noteq> None then (case readers s i of Some pc \<Rightarrow> drop n (holding pc) | None \<Rightarrow> []) else [])"
| "dropped_by i _ s = []"

text \<open>All the bytes of session \<open>i\<close> dropped along a run that starts in \<open>s\<close>, in order.\<close>

fun lost :: "lib \<Rightarrow> uuid \<Rightarrow> action list \<Rightarrow> state \<Rightarrow> byte list" where
  "lost L i [] s = []"
| "lost L i (a # as) s =
     dropped_by i a s @ (case step L a s of None \<Rightarrow> [] | Some s' \<Rightarrow> lost L i as s')"

text \<open>The payload of the frames for session \<open>i\<close> that \<^verbatim>\<open>stream.Send\<close> was called with and
  returned an error for.\<close>

definition refused :: "uuid \<Rightarrow> state \<Rightarrow> byte list" where
  "refused i s = payload i (map fst (filter (\<lambda>(f, r). r \<noteq> None) (stream_sends s)))"


subsection \<open>The orchestrator (Tunnel)\<close>

text \<open>
  Each pair is run on a state of its own; the registry, which the ktunnel library keeps
  for the whole process, is one per pair here. What \<^verbatim>\<open>Tunnel\<close> returns does not read it.
  What the environment decides for one forwarding pair: the error of
  \<^verbatim>\<open>client.InitTunnel(ctx)\<close>, the error of the first \<^verbatim>\<open>stream.Send(req)\<close>, and the run of the
  pair's goroutines once they are started.
\<close>

record pair_env =
  InitTunnel_err :: "error option"
  Send_err :: "error option"
  schedule :: "action list"

text \<open>
  For one call of \<^verbatim>\<open>Tunnel\<close>: the error of \<^verbatim>\<open>grpc.Dial\<close>; whether and when the caller cancels
  the context it passed, by a plain \<^verbatim>\<open>CancelFunc\<close> as \<^verbatim>\<open>interrupt()\<close> of main.go does
  (\<open>Some k\<close>: before the loop reaches pair \<open>k\<close>, or during the wait when there is no such
  pair); the pairs; and the order in which the \<^verbatim>\<open>SendData\<close> goroutines reach
  \<^verbatim>\<open>errs = xerrors.Append(errs, err)\<close>, as positions in the list of started pairs.
\<close>

record tunnel_env =
  Dial_err :: "error option"
  parent_cancel :: "nat option"
  pairs :: "pair_env list"
  finished :: "nat list"

text \<open>
  The \<^verbatim>\<open>for\<close> loop over \<open>fps\<close>, from pair number \<open>k\<close> on: the context after the loop and the
  pairs whose two goroutines were started. A failing pair cancels with its cause and
  breaks.
\<close>

fun launch :: "nat option \<Rightarrow> nat \<Rightarrow> context \<Rightarrow> pair_env list \<Rightarrow> context \<times> pair_env list" where
  "launch pc k ctx [] = (ctx, [])"
| "launch pc k ctx (p # ps) =
     (let ctx = (if pc = Some k then cancel None ctx else ctx) in
      case InitTunnel_err p of
        Some err \<Rightarrow> (cancel (Some (XNew ''failed initializing tunnel'' err)) ctx, [])
      | None \<Rightarrow>
          (case Send_err p of
             Some err \<Rightarrow> (cancel (Some (XNew ''failed sending initial tunnel request'' err)) ctx, [])
           | None \<Rightarrow> (let (ctx', started) = launch pc (Suc k) ctx ps in (ctx', p # started))))"

definition launched :: "tunnel_env \<Rightarrow> pair_env list" where
  "launched E = snd (launch (parent_cancel E) 0 background (pairs E))"

text \<open>The context when \<^verbatim>\<open>wg.Wait()\<close> returns.\<close>

definition final_context :: "tunnel_env \<Rightarrow> context" where
  "final_context E =
     (let ctx = fst (launch (parent_cancel E) 0 background (pairs E))
      in if parent_cancel E \<noteq> None then cancel None ctx else ctx)"

text \<open>What the two loops of a started pair return, when both return in the pair's run:
  first \<^verbatim>\<open>SendData\<close>, then \<^verbatim>\<open>ReceiveData\<close>. Every pair runs from \<open>init\<close>, with its own
  sessions.\<close>

definition pair_result :: "lib \<Rightarrow> pair_env \<Rightarrow> (error option \<times> error option) option" where
  "pair_result L p =
     (case exec L (schedule p) init of
        None \<Rightarrow> None
      | Some s \<Rightarrow>
          (case (sender s, receiver s) of
             (SReturned err, VReturned rerr) \<Rightarrow> Some (err, rerr)
           | _ \<Rightarrow> None))"

text \<open>
  The goroutine of \<^verbatim>\<open>ReceiveData\<close> drops the value it returns and calls \<^verbatim>\<open>wg.Done()\<close>; the
  goroutine of \<^verbatim>\<open>SendData\<close> appends its value to \<open>errs\<close>. \<open>joined\<close> is the list of values
  of the \<^verbatim>\<open>SendData\<close> goroutines, by started pair, when every goroutine has returned.
\<close>

fun joined :: "lib \<Rightarrow> pair_env list \<Rightarrow> error option list option" where
  "joined L [] = Some []"
| "joined L (p # ps) =
     (case map_option fst (pair_result L p) of
        None \<Rightarrow> None
      | Some err \<Rightarrow> (case joined L ps of None \<Rightarrow> None | Some errs \<Rightarrow> Some (err # errs)))"

definition send_errors :: "lib \<Rightarrow> tunnel_env \<Rightarrow> error option list \<Rightarrow> error option" where
  "send_errors L E errs = foldl (Append L) None (map (\<lambda>k. errs ! k) (finished E))"

text \<open>
  \<^verbatim>\<open>Tunnel\<close>: \<open>None\<close> when \<^verbatim>\<open>wg.Wait()\<close> never returns, or when \<open>finished\<close> is not an order of
  the started pairs.
\<close>

definition Tunnel :: "lib \<Rightarrow> tunnel_env \<Rightarrow> error option option" where
  "Tunnel L E =
     (case Dial_err E of
        Some err \<Rightarrow> Some (Some (XNew ''failed to dial'' err))
      | None \<Rightarrow>
          (case joined L (launched E) of
             None \<Rightarrow> None
           | Some errs \<Rightarrow>
               if sort (finished E) = [0..<length errs]
               then Some (WithWrapper L (Cause (final_context E)) (send_errors L E errs))
               else None))"

text \<open>A pair whose two init steps succeed, and two pairs that are alike for \<^verbatim>\<open>Tunnel\<close> up to what \<^verbatim>\<open>ReceiveData\<close> returns.\<close>

definition alike :: "lib \<Rightarrow> pair_env \<Rightarrow> pair_env \<Rightarrow> bool" where
  "alike L p p' \<longleftrightarrow>
     InitTunnel_err p' = InitTunnel_err p \<and> Send_err p' = Send_err p
     \<and> map_option fst (pair_result L p') = map_option fst (pair_result L p)"

definition init_ok :: "pair_env \<Rightarrow> bool" where
  "init_ok p \<longleftrightarrow> InitTunnel_err p = None \<and> Send_err p = None"

subsection \<open>Concrete inputs\<close>

text \<open>An inbound frame with one byte of payload; its id parses to 1.\<close>

definition id1 :: string where
  "id1 = ''00000000-0000-0000-0000-000000000001''"

definition m0 :: SocketDataResponse where
  "m0 = \<lparr>RequestId_in = id1, Data_in = [1], ShouldClose_in = False\<rparr>"

text \<open>The context after a plain cancel, and after \<^verbatim>\<open>Tunnel\<close> cancelled it with a cause.\<close>

definition canceled_ctx :: "context" where
  "canceled_ctx = cancel None background"

definition init_failure :: error where
  "init_failure = XNew ''failed initializing tunnel'' (Failure ''unavailable'')"

definition failed_ctx :: "context" where
  "failed_ctx = cancel (Some init_failure) background"

text \<open>The pair has registered session 1 from \<open>m0\<close> and written its payload to the socket.\<close>

definition opened :: "action list" where
  "opened = [V_Recv (Inr m0), V_Select background None, V_Dial None, V_Handle, V_HLock,
             V_HWrite None, V_HUnlock]"

definition session1 :: Session where
  "session1 = \<lparr>Id = 1, Buf = [], Open = True, Mutex = None, Written = [[1]], Closed = False\<rparr>"

definition s_open :: state where
  "s_open = \<lparr>sessions = (\<lambda>_. None)(1 := Some session1), readers = (\<lambda>_. None)(1 := Some RRead),
             sender = SSelect, receiver = VRecv, stream_sends = [], chunks = (\<lambda>_. [])\<rparr>"

text \<open>The reader of session 1 has read two bytes and holds the lock, before the append.\<close>

definition reading :: "action list" where
  "reading = opened @ [R_Read 1 [7, 8] None, R_Select 1 False, R_Lock 1]"

definition s_reading :: state where
  "s_reading = s_open\<lparr>sessions := (\<lambda>_. None)(1 := Some (session1\<lparr>Mutex := Some Reader\<rparr>)),
                      readers := (\<lambda>_. None)(1 := Some (RWrite [7, 8])),
                      chunks := (\<lambda>_. [])(1 := [[7, 8]])\<rparr>"

text \<open>The two bytes are in the buffer and the reader has handed the session to \<^verbatim>\<open>SendData\<close>.\<close>

definition published :: "action list" where
  "published = reading @ [R_Write 1 0 None, R_Unlock 1, Publish 1]"

definition s_published :: state where
  "s_published = s_open\<lparr>sessions := (\<lambda>_. None)(1 := Some (session1\<lparr>Buf := [7, 8]\<rparr>)),
                        sender := SLock 1,
                        chunks := (\<lambda>_. [])(1 := [[7, 8]])\<rparr>"



text \<open>\<^verbatim>\<open>handleStreamData\<close> has taken the lock of session 1 and is about to write to the socket.\<close>

definition writing :: "action list" where
  "writing = [V_Recv (Inr m0), V_Select background None, V_Dial None, V_Handle, V_HLock]"

definition s_writing :: state where
  "s_writing = s_open\<lparr>sessions := (\<lambda>_. None)(1 := Some (session1\<lparr>Mutex := Some Receiver, Written := []\<rparr>)),
                      receiver := VHWrite m0 1\<rparr>"

text \<open>The two bytes went out in one frame.\<close>

definition delivered :: "action list" where
  "delivered = published @ [S_Lock, S_Drain, S_Build, S_Unlock, S_Send None]"










text \<open>One pair whose loops both end cleanly on a plain cancel by the caller; one pair whose
  \<^verbatim>\<open>InitTunnel\<close> fails; one pair whose stream breaks, so that \<^verbatim>\<open>Recv\<close> fails and the stream's
  context ends, with no cancel by anyone.\<close>

definition E_cancel :: tunnel_env where
  "E_cancel = \<lparr>Dial_err = None, parent_cancel = Some 1,
     pairs = [\<lparr>InitTunnel_err = None, Send_err = None,
               schedule = [V_Recv (Inr m0), V_Select canceled_ctx None, S_Done canceled_ctx]\<rparr>],
     finished = [0]\<rparr>"

definition E_fail :: tunnel_env where
  "E_fail = \<lparr>Dial_err = None, parent_cancel = None,
     pairs = [\<lparr>InitTunnel_err = Some (Failure ''unavailable''), Send_err = None, schedule = []\<rparr>],
     finished = []\<rparr>"

definition E_broken :: tunnel_env where
  "E_broken = \<lparr>Dial_err = None, parent_cancel = None,
     pairs = [\<lparr>InitTunnel_err = None, Send_err = None,
               schedule = [V_Recv (Inl (Failure ''reset'')), S_Done canceled_ctx]\<rparr>],
     finished = [0]\<rparr>"

definition E_quiet :: tunnel_env where
  "E_quiet = \<lparr>Dial_err = None, parent_cancel = None,
     pairs = [\<lparr>InitTunnel_err = None, Send_err = None,
               schedule = [V_Recv (Inr m0), V_Select canceled_ctx None, S_Done canceled_ctx]\<rparr>],
     finished = [0]\<rparr>"

definition E_fail_send :: tunnel_env where
  "E_fail_send = \<lparr>Dial_err = None, parent_cancel = None,
     pairs = [\<lparr>InitTunnel_err = None, Send_err = Some (Failure ''broken pipe''), schedule = []\<rparr>],
     finished = []\<rparr>"

text \<open>\<^verbatim>\<open>SendData\<close> has built the frame with the two bytes, unlocked, and is about to send.\<close>

definition sending :: "action list" where
  "sending = published @ [S_Lock, S_Drain, S_Build, S_Unlock]"

definition s_sending :: state where
  "s_sending = s_open\<lparr>sender := SSend \<lparr>RequestId = 1, Data = [7, 8], ShouldClose = False\<rparr>,
                      chunks := (\<lambda>_. [])(1 := [[7, 8]])\<rparr>"

text \<open>Two pairs, the second failing in \<^verbatim>\<open>InitTunnel\<close>: the loops of the first end on the
  cancellation this causes; or its \<^verbatim>\<open>SendData\<close> had failed on a send before.\<close>

definition E_fail_second :: tunnel_env where
  "E_fail_second = \<lparr>Dial_err = None, parent_cancel = None,
     pairs = [\<lparr>InitTunnel_err = None, Send_err = None,
               schedule = [V_Recv (Inl (Failure ''canceled'')), S_Done failed_ctx]\<rparr>,
              \<lparr>InitTunnel_err = Some (Failure ''unavailable''), Send_err = None, schedule = []\<rparr>],
     finished = [0]\<rparr>"

definition E_fail_sent :: tunnel_env where
  "E_fail_sent = \<lparr>Dial_err = None, parent_cancel = None,
     pairs = [\<lparr>InitTunnel_err = None, Send_err = None,
               schedule = sending @ [S_Send (Some (Failure ''broken pipe'')),
                                     V_Recv (Inl (Failure ''canceled''))]\<rparr>,
              \<lparr>InitTunnel_err = Some (Failure ''unavailable''), Send_err = None, schedule = []\<rparr>],
     finished = [0]\<rparr>"

text \<open>The frame with the two bytes is refused by the transport, and \<^verbatim>\<open>SendData\<close> returns.\<close>

definition broken :: "action list" where
  "broken = sending @ [S_Send (Some (Failure ''broken pipe''))]"


section \<open>Facts about the parser\<close>

lemma split_colon_nonempty: "split_colon s \<noteq> []"
  by (induction s) (auto split: list.splits)

lemma length_split_colon: "length (split_colon s) = Suc (colons s)"
  unfolding colons_def
  by (induction s) (auto split: list.splits simp: split_colon_nonempty)

lemma split_colon_plain: "CHR '':'' \<notin> set s \<Longrightarrow> split_colon s = [s]"
  by (induction s) auto

lemma split_colon_at: "CHR '':'' \<notin> set l \<Longrightarrow> split_colon (l @ CHR '':'' # r) = l # split_colon r"
  by (induction l) auto

lemma digit_not_colon: "is_digit c \<Longrightarrow> c \<noteq> CHR '':''"
  by (auto simp: is_digit_def)

lemma digits_no_colon: "list_all is_digit s \<Longrightarrow> CHR '':'' \<notin> set s"
  by (auto simp: list_all_iff dest: digit_not_colon)

lemma foldl_dec_mono: "n \<le> foldl (\<lambda>n c. n * 10 + digit_val c) n s"
proof (induction s arbitrary: n)
  case Nil
  show ?case by simp
next
  case (Cons c cs)
  have "n \<le> n * 10 + digit_val c" by simp
  also have "\<dots> \<le> foldl (\<lambda>n c. n * 10 + digit_val c) (n * 10 + digit_val c) cs"
    by (rule Cons.IH)
  finally show ?case by simp
qed

lemma parse_digits_Inr:
  "parse_digits n s = Inr m \<longleftrightarrow>
     list_all is_digit s \<and> m = foldl (\<lambda>n c. n * 10 + digit_val c) n s \<and> (s \<noteq> [] \<longrightarrow> m \<le> 65535)"
proof (induction s arbitrary: n)
  case Nil
  show ?case by auto
next
  case (Cons c cs)
  let ?n' = "n * 10 + digit_val c"
  have mono: "?n' \<le> foldl (\<lambda>n c. n * 10 + digit_val c) ?n' cs"
    by (rule foldl_dec_mono)
  show ?case
  proof (cases "is_digit c \<and> ?n' \<le> 65535")
    case True
    then show ?thesis using Cons.IH [of ?n'] by (cases cs) auto
  next
    case False
    then show ?thesis using mono by auto
  qed
qed

lemma ParseUint_Inr: "ParseUint s = Inr m \<longleftrightarrow> port_text s \<and> m = dec_val s"
  unfolding ParseUint_def port_text_def dec_val_def
  by (auto simp: parse_digits_Inr)

lemma ParseUint_port: "port_text s \<Longrightarrow> ParseUint s = Inr (dec_val s)"
  by (simp add: ParseUint_Inr)

lemma ParseUint_zero: "ParseUint ''0'' = Inr 0"
  by (simp add: ParseUint_def is_digit_def digit_val_def)

lemma ParseUint_Inl: "(\<exists>e. ParseUint s = Inl e) \<longleftrightarrow> \<not> port_text s"
proof (cases "ParseUint s")
  case (Inl e)
  then show ?thesis using ParseUint_Inr [of s] by auto
next
  case (Inr m)
  then show ?thesis using ParseUint_Inr [of s m] by auto
qed

lemma port_text_no_colon: "port_text s \<Longrightarrow> CHR '':'' \<notin> set s"
  by (simp add: port_text_def digits_no_colon)

lemma parse_port_bare:
  "CHR '':'' \<notin> set r \<Longrightarrow>
   parse_port r =
     (case ParseUint r of
        Inl e \<Rightarrow> Inl (ErrorParsingLocal r e)
      | Inr n \<Rightarrow> if n = 0 then Inl RemotePortZero else Inr \<lparr>Local = of_nat n, Remote = of_nat n\<rparr>)"
  by (simp add: parse_port_def split_colon_plain split: sum.splits)

lemma parse_port_both:
  "CHR '':'' \<notin> set l \<Longrightarrow> CHR '':'' \<notin> set r \<Longrightarrow>
   parse_port (l @ '':'' @ r) =
     (case ParseUint (if l = [] then ''0'' else l) of
        Inl e \<Rightarrow> Inl (ErrorParsingLocal (if l = [] then ''0'' else l) e)
      | Inr n \<Rightarrow>
          (case ParseUint r of
             Inl e \<Rightarrow> Inl (ErrorParsingRemote r e)
           | Inr m \<Rightarrow> if m = 0 then Inl RemotePortZero else Inr \<lparr>Local = of_nat n, Remote = of_nat m\<rparr>))"
  by (simp add: parse_port_def split_colon_at split_colon_plain split: sum.splits)

lemma parse_port_many_colons: "2 \<le> colons s \<Longrightarrow> parse_port s = Inl (InvalidPortFormat s)"
proof -
  assume "2 \<le> colons s"
  then have "3 \<le> length (split_colon s)" by (simp add: length_split_colon)
  then obtain a b c ds where "split_colon s = a # b # c # ds"
    by (cases "split_colon s" rule: list.exhaust; simp; (rename_tac x xs, case_tac xs; simp; (rename_tac y ys, case_tac ys; simp)))
  then show ?thesis by (simp add: parse_port_def)
qed

lemma parse_port_well_formed: "well_formed p \<Longrightarrow> parse_port (render p) = Inr (spec_pair p)"
proof (cases p)
  case (Bare r)
  assume "well_formed p"
  with Bare show ?thesis
    by (simp add: parse_port_bare port_text_no_colon ParseUint_port)
next
  case (Both l r)
  assume "well_formed p"
  with Both have l: "port_text l" and r: "port_text r" and pos: "0 < dec_val r" by simp_all
  from l have "l \<noteq> []" by (simp add: port_text_def)
  with l r pos Both show ?thesis
    using parse_port_both [of l r] by (simp add: port_text_no_colon ParseUint_port)
next
  case (AnyLocal r)
  assume "well_formed p"
  with AnyLocal have r: "port_text r" and pos: "0 < dec_val r" by simp_all
  with AnyLocal show ?thesis
    using parse_port_both [of "[]" r] by (simp add: port_text_no_colon ParseUint_port ParseUint_zero)
qed

lemma ParsePorts_loop_ok:
  "map parse_port ports = map Inr ys \<Longrightarrow> ParsePorts_loop acc ports = Inr (acc @ ys)"
proof (induction ports arbitrary: acc ys)
  case Nil
  then show ?case by simp
next
  case (Cons p ports)
  from Cons.prems obtain fp zs where ys: "ys = fp # zs"
    by (cases ys) auto
  with Cons.prems have p: "parse_port p = Inr fp" and rest: "map parse_port ports = map Inr zs"
    by simp_all
  from Cons.IH [OF rest, of "acc @ [fp]"] p ys show ?case by simp
qed

lemma ParsePorts_loop_err:
  "map parse_port pre = map Inr ys \<Longrightarrow> parse_port p = Inl e \<Longrightarrow>
   ParsePorts_loop acc (pre @ p # post) = Inl e"
proof (induction pre arbitrary: acc ys)
  case Nil
  then show ?case by simp
next
  case (Cons q pre)
  from Cons.prems(1) obtain fp zs where ys: "ys = fp # zs"
    by (cases ys) auto
  with Cons.prems(1) have q: "parse_port q = Inr fp" and rest: "map parse_port pre = map Inr zs"
    by simp_all
  from Cons.IH [OF rest Cons.prems(2), of "acc @ [fp]"] q show ?case by simp
qed

lemma ports_ok_or_first_error:
  "(\<exists>ys. map parse_port ports = map Inr ys) \<or>
   (\<exists>pre p post ys e. ports = pre @ p # post \<and> map parse_port pre = map Inr ys \<and> parse_port p = Inl e)"
proof (induction ports)
  case Nil
  show ?case by simp
next
  case (Cons q ports)
  show ?case
  proof (cases "parse_port q")
    case (Inl e)
    then have "q # ports = [] @ q # ports \<and> map parse_port [] = map Inr [] \<and> parse_port q = Inl e"
      by simp
    then show ?thesis by blast
  next
    case (Inr fp)
    from Cons.IH show ?thesis
    proof
      assume "\<exists>ys. map parse_port ports = map Inr ys"
      then obtain ys where "map parse_port ports = map Inr ys" ..
      with Inr have "map parse_port (q # ports) = map Inr (fp # ys)" by simp
      then show ?thesis by blast
    next
      assume "\<exists>pre p post ys e. ports = pre @ p # post \<and> map parse_port pre = map Inr ys \<and> parse_port p = Inl e"
      then obtain pre p post ys e where
        "ports = pre @ p # post" "map parse_port pre = map Inr ys" "parse_port p = Inl e"
        by blast
      with Inr have "q # ports = (q # pre) @ p # post \<and> map parse_port (q # pre) = map Inr (fp # ys) \<and> parse_port p = Inl e"
        by simp
      then show ?thesis by blast
    qed
  qed
qed

lemma port_text_fits: "port_text s \<Longrightarrow> unat (word_of_nat (dec_val s) :: 16 word) = dec_val s"
  by (simp add: port_text_def unat_of_nat)

lemma sublist_quoted: "sublist s (pre @ [q] @ s @ [q'] @ post)"
proof -
  have "sublist s ((pre @ [q]) @ s @ ([q'] @ post))" by (rule sublist_appendI)
  then show ?thesis by simp
qed

text \<open>
  Claim C7. For a list of well-formed specs, \<open>ParsePorts\<close> returns the whole list of pairs:
  a bare \<open>REMOTE\<close> gives local and remote the same value, \<open>LOCAL:REMOTE\<close> gives both as
  written, \<open>:REMOTE\<close> gives local 0; the 16-bit fields hold the decimal values without
  truncation; \<open>"8080"\<close> parses to \<open>{8080, 8080}\<close> and \<open>":5000"\<close> to \<open>{0, 5000}\<close>.
\<close>

theorem ParsePorts_well_formed:
  "(list_all well_formed ps \<longrightarrow> ParsePorts (map render ps) = Inr (map spec_pair ps))
   \<and> (port_text s \<longrightarrow> unat (word_of_nat (dec_val s) :: 16 word) = dec_val s)
   \<and> ParsePorts [''8080''] = Inr [\<lparr>Local = 8080, Remote = 8080\<rparr>]
   \<and> ParsePorts ['':5000''] = Inr [\<lparr>Local = 0, Remote = 5000\<rparr>]"
proof (intro conjI impI)
  assume wf: "list_all well_formed ps"
  have "map parse_port (map render ps) = map Inr (map spec_pair ps)"
    using wf by (induction ps) (simp_all add: parse_port_well_formed)
  then show "ParsePorts (map render ps) = Inr (map spec_pair ps)"
    unfolding ParsePorts_def using ParsePorts_loop_ok [of "map render ps" "map spec_pair ps" "[]"]
    by simp
next
  assume "port_text s"
  then show "unat (word_of_nat (dec_val s) :: 16 word) = dec_val s"
    by (rule port_text_fits)
next
  show "ParsePorts [''8080''] = Inr [\<lparr>Local = 8080, Remote = 8080\<rparr>]"
    by (simp add: ParsePorts_def parse_port_def ParseUint_def is_digit_def digit_val_def)
next
  show "ParsePorts ['':5000''] = Inr [\<lparr>Local = 0, Remote = 5000\<rparr>]"
    by (simp add: ParsePorts_def parse_port_def ParseUint_def is_digit_def digit_val_def)
qed

theorem ParsePorts_well_formed_witness:
  "list_all well_formed [Bare ''8080'', AnyLocal ''5000'', Both ''3000'' ''80'']
   \<and> ParsePorts [''8080'', '':5000'', ''3000:80''] =
       Inr [\<lparr>Local = 8080, Remote = 8080\<rparr>, \<lparr>Local = 0, Remote = 5000\<rparr>, \<lparr>Local = 3000, Remote = 80\<rparr>]
   \<and> port_text ''65535'' \<and> unat (word_of_nat (dec_val ''65535'') :: 16 word) = 65535"
  using ParsePorts_well_formed [of "[Bare ''8080'', AnyLocal ''5000'', Both ''3000'' ''80'']" "''65535''"]
  by (simp add: port_text_def dec_val_def is_digit_def digit_val_def)

text \<open>
  Claim C8, as stated, at the input \<open>["abc:80"]\<close>: the parse fails on the local port, and
  the error text names the local part \<open>abc\<close>; the spec \<open>abc:80\<close> does not occur in it.
\<close>

theorem ParsePorts_error_names_spec_counterexample:
  "ParsePorts [''abc:80''] = Inl (ErrorParsingLocal ''abc'' ErrSyntax)
   \<and> \<not> sublist ''abc:80'' (Error (ErrorParsingLocal ''abc'' ErrSyntax))"
proof
  show "ParsePorts [''abc:80''] = Inl (ErrorParsingLocal ''abc'' ErrSyntax)"
    by (simp add: ParsePorts_def parse_port_def ParseUint_def is_digit_def digit_val_def)
  show "\<not> sublist ''abc:80'' (Error (ErrorParsingLocal ''abc'' ErrSyntax))"
    by code_simp
qed

text \<open>
  Claim C8, amended. For one spec, in the order the code checks:
  \<^item> two colons or more: the error \<open>invalid port format\<close>, whose text holds the spec;
  \<^item> otherwise a local part (the whole of a bare spec) that is not a 16-bit decimal number: a
    parse error whose text holds that part; an empty local part before a colon is read as 0;
  \<^item> otherwise a remote part that is not a 16-bit decimal number: a parse error whose text
    holds that part;
  \<^item> otherwise a remote value of 0: the error \<open>remote port must be > 0\<close>.
  For the list: the error of the first failing spec is returned, and with no failing spec the
  result is one pair for each spec.
\<close>

theorem ParsePorts_errors:
  "(2 \<le> colons s \<longrightarrow>
      parse_port s = Inl (InvalidPortFormat s) \<and> sublist s (Error (InvalidPortFormat s)))
   \<and> (colons b = 0 \<and> \<not> port_text b \<longrightarrow>
      (\<exists>e. parse_port b = Inl (ErrorParsingLocal b e) \<and> sublist b (Error (ErrorParsingLocal b e))))
   \<and> (colons l1 = 0 \<and> colons r1 = 0 \<and> l1 \<noteq> [] \<and> \<not> port_text l1 \<longrightarrow>
      (\<exists>e. parse_port (l1 @ '':'' @ r1) = Inl (ErrorParsingLocal l1 e)
           \<and> sublist l1 (Error (ErrorParsingLocal l1 e))))
   \<and> (colons r2 = 0 \<and> (l2 = [] \<or> port_text l2) \<and> \<not> port_text r2 \<longrightarrow>
      (\<exists>e. parse_port (l2 @ '':'' @ r2) = Inl (ErrorParsingRemote r2 e)
           \<and> sublist r2 (Error (ErrorParsingRemote r2 e))))
   \<and> ((l3 = [] \<or> port_text l3) \<and> port_text r3 \<and> dec_val r3 = 0 \<longrightarrow>
      parse_port (l3 @ '':'' @ r3) = Inl RemotePortZero)
   \<and> (port_text b0 \<and> dec_val b0 = 0 \<longrightarrow> parse_port b0 = Inl RemotePortZero)
   \<and> Error RemotePortZero = ''remote port must be > 0''
   \<and> (map parse_port pre = map Inr ys \<and> parse_port p = Inl e \<longrightarrow>
      ParsePorts (pre @ p # post) = Inl e)
   \<and> (map parse_port ports = map Inr fps \<longrightarrow> ParsePorts ports = Inr fps)
   \<and> ((\<exists>fps. ParsePorts qs = Inr fps \<and> map parse_port qs = map Inr fps)
       \<or> (\<exists>pre p post ys e. qs = pre @ p # post \<and> map parse_port pre = map Inr ys
             \<and> parse_port p = Inl e \<and> ParsePorts qs = Inl e))"
proof (intro conjI impI)
  assume "2 \<le> colons s"
  then show "parse_port s = Inl (InvalidPortFormat s)"
    by (rule parse_port_many_colons)
next
  show "sublist s (Error (InvalidPortFormat s))"
    using sublist_quoted [of s "''invalid port format ''" "CHR 0x27" "CHR 0x27" "[]"] by simp
next
  assume h: "colons b = 0 \<and> \<not> port_text b"
  then have nc: "CHR '':'' \<notin> set b" by (simp add: colons_def count_list_0_iff)
  from h obtain e where e: "ParseUint b = Inl e" using ParseUint_Inl [of b] by blast
  have "sublist b (Error (ErrorParsingLocal b e))"
    using sublist_quoted [of b "''error parsing local port ''" "CHR 0x27" "CHR 0x27"] by simp
  with nc e show "\<exists>e. parse_port b = Inl (ErrorParsingLocal b e) \<and> sublist b (Error (ErrorParsingLocal b e))"
    by (auto simp: parse_port_bare)
next
  assume h: "colons l1 = 0 \<and> colons r1 = 0 \<and> l1 \<noteq> [] \<and> \<not> port_text l1"
  then have nc: "CHR '':'' \<notin> set l1" "CHR '':'' \<notin> set r1"
    by (simp_all add: colons_def count_list_0_iff)
  from h obtain e where e: "ParseUint l1 = Inl e" using ParseUint_Inl [of l1] by blast
  have "sublist l1 (Error (ErrorParsingLocal l1 e))"
    using sublist_quoted [of l1 "''error parsing local port ''" "CHR 0x27" "CHR 0x27"] by simp
  with nc e h show "\<exists>e. parse_port (l1 @ '':'' @ r1) = Inl (ErrorParsingLocal l1 e)
       \<and> sublist l1 (Error (ErrorParsingLocal l1 e))"
    using parse_port_both [of l1 r1] by auto
next
  assume h: "colons r2 = 0 \<and> (l2 = [] \<or> port_text l2) \<and> \<not> port_text r2"
  then have nc: "CHR '':'' \<notin> set l2" "CHR '':'' \<notin> set r2"
    by (auto simp: colons_def count_list_0_iff dest: port_text_no_colon)
  from h obtain e where e: "ParseUint r2 = Inl e" using ParseUint_Inl [of r2] by blast
  from h have l: "\<exists>n. ParseUint (if l2 = [] then ''0'' else l2) = Inr n"
    by (auto simp: ParseUint_zero ParseUint_port)
  have "sublist r2 (Error (ErrorParsingRemote r2 e))"
    using sublist_quoted [of r2 "''error parsing remote port ''" "CHR 0x27" "CHR 0x27"] by simp
  with nc e l show "\<exists>e. parse_port (l2 @ '':'' @ r2) = Inl (ErrorParsingRemote r2 e)
       \<and> sublist r2 (Error (ErrorParsingRemote r2 e))"
    using parse_port_both [of l2 r2] by auto
next
  assume h: "(l3 = [] \<or> port_text l3) \<and> port_text r3 \<and> dec_val r3 = 0"
  then have nc: "CHR '':'' \<notin> set l3" "CHR '':'' \<notin> set r3"
    by (auto dest: port_text_no_colon)
  from h have l: "\<exists>n. ParseUint (if l3 = [] then ''0'' else l3) = Inr n"
    by (auto simp: ParseUint_zero ParseUint_port)
  from h have "ParseUint r3 = Inr 0" by (simp add: ParseUint_Inr)
  with nc l show "parse_port (l3 @ '':'' @ r3) = Inl RemotePortZero"
    using parse_port_both [of l3 r3] by auto
next
  assume h: "port_text b0 \<and> dec_val b0 = 0"
  then have "ParseUint b0 = Inr 0" by (simp add: ParseUint_Inr)
  with h show "parse_port b0 = Inl RemotePortZero"
    by (simp add: parse_port_bare port_text_no_colon)
next
  show "Error RemotePortZero = ''remote port must be > 0''" by simp
next
  assume "map parse_port pre = map Inr ys \<and> parse_port p = Inl e"
  then show "ParsePorts (pre @ p # post) = Inl e"
    unfolding ParsePorts_def using ParsePorts_loop_err [of pre ys p e "[]" post] by simp
next
  assume "map parse_port ports = map Inr fps"
  then show "ParsePorts ports = Inr fps"
    unfolding ParsePorts_def using ParsePorts_loop_ok [of ports fps "[]"] by simp
next
  from ports_ok_or_first_error [of qs]
  show "(\<exists>fps. ParsePorts qs = Inr fps \<and> map parse_port qs = map Inr fps)
       \<or> (\<exists>pre p post ys e. qs = pre @ p # post \<and> map parse_port pre = map Inr ys
             \<and> parse_port p = Inl e \<and> ParsePorts qs = Inl e)"
  proof
    assume "\<exists>ys. map parse_port qs = map Inr ys"
    then obtain ys where ys: "map parse_port qs = map Inr ys" ..
    then have "ParsePorts qs = Inr ys"
      unfolding ParsePorts_def using ParsePorts_loop_ok [of qs ys "[]"] by simp
    with ys show ?thesis by blast
  next
    assume "\<exists>pre p post ys e. qs = pre @ p # post \<and> map parse_port pre = map Inr ys \<and> parse_port p = Inl e"
    then obtain pre p post ys e where
      h: "qs = pre @ p # post" "map parse_port pre = map Inr ys" "parse_port p = Inl e"
      by blast
    then have "ParsePorts qs = Inl e"
      unfolding ParsePorts_def using ParsePorts_loop_err [of pre ys p e "[]" post] by simp
    with h show ?thesis by blast
  qed
qed

theorem ParsePorts_errors_witness:
  "2 \<le> colons ''1:2:3'' \<and> parse_port ''1:2:3'' = Inl (InvalidPortFormat ''1:2:3'')
   \<and> colons ''65536'' = 0 \<and> \<not> port_text ''65536''
   \<and> parse_port ''65536'' = Inl (ErrorParsingLocal ''65536'' ErrRange)
   \<and> colons ''abc'' = 0 \<and> colons ''80'' = 0 \<and> \<not> port_text ''abc''
   \<and> parse_port ''abc:80'' = Inl (ErrorParsingLocal ''abc'' ErrSyntax)
   \<and> colons ''8x'' = 0 \<and> \<not> port_text ''8x''
   \<and> parse_port '':8x'' = Inl (ErrorParsingRemote ''8x'' ErrSyntax)
   \<and> port_text ''80'' \<and> port_text ''0'' \<and> dec_val ''0'' = 0
   \<and> parse_port ''80:0'' = Inl RemotePortZero
   \<and> parse_port ''0'' = Inl RemotePortZero
   \<and> map parse_port [''8080''] = map Inr [\<lparr>Local = 8080, Remote = 8080\<rparr>]
   \<and> ParsePorts [''8080'', ''80:0'', ''1:2:3''] = Inl RemotePortZero
   \<and> ParsePorts [''8080''] = Inr [\<lparr>Local = 8080, Remote = 8080\<rparr>]"
  using ParsePorts_errors [where s = "''1:2:3''" and b = "''65536''" and ?l1.0 = "''abc''"
      and ?r1.0 = "''80''" and ?l2.0 = "[]" and ?r2.0 = "''8x''" and ?l3.0 = "''80''"
      and ?r3.0 = "''0''" and ?b0.0 = "''0''" and pre = "[''8080'']"
      and ys = "[\<lparr>Local = 8080, Remote = 8080\<rparr>]" and p = "''80:0''" and e = RemotePortZero
      and post = "[''1:2:3'']" and ports = "[''8080'']"
      and fps = "[\<lparr>Local = 8080, Remote = 8080\<rparr>]" and qs = "[]"]
  by (simp add: colons_def port_text_def dec_val_def is_digit_def digit_val_def parse_port_def
      ParseUint_def)

section \<open>Facts about the steps\<close>

lemma Parse_id1: "Parse id1 = 1"
  by (simp add: Parse_def id1_def hyphenated_def uuid_of_def xtob_def xvalue_def)

lemma go_lib_simps:
  "uuid_Parse go_lib id1 = 1" "WithWrapper go_lib = xerrors_WithWrapper"
  "Append go_lib = xerrors_Append"
  by (simp_all add: go_lib_def Parse_id1)

lemma sessions_upd [simp]: "sessions (upd i f s) = (sessions s)(i := map_option f (sessions s i))"
  by (auto simp: upd_def split: option.splits)

lemma upd_fields [simp]:
  "readers (upd i f s) = readers s" "sender (upd i f s) = sender s"
  "receiver (upd i f s) = receiver s" "stream_sends (upd i f s) = stream_sends s"
  "chunks (upd i f s) = chunks s"
  by (auto simp: upd_def split: option.splits)

lemma sent_simps [simp]:
  "sent (upd i f s) = sent s"
  "sent (s\<lparr>readers := r\<rparr>) = sent s"
  "sent (s\<lparr>sender := p\<rparr>) = sent s"
  "sent (s\<lparr>receiver := q\<rparr>) = sent s"
  "sent (s\<lparr>chunks := ch\<rparr>) = sent s"
  "sent (s\<lparr>sessions := ss\<rparr>) = sent s"
  "sent (s\<lparr>stream_sends := stream_sends s @ [(fr, res)]\<rparr>) = sent s @ (if res = None then [fr] else [])"
  by (simp_all add: sent_def)

lemma payload_simps [simp]:
  "payload i [] = []"
  "payload i (fs @ gs) = payload i fs @ payload i gs"
  "payload i [f] = (if RequestId f = i then Data f else [])"
  by (simp_all add: payload_def)

lemma Buf_Read_all: "Buf_Read buf (length buf) = (buf, [], None)"
  by (simp add: Buf_Read_def)

lemma r_read_Some:
  "r_read i c err s = Some s' \<longleftrightarrow>
     readers s i = Some RRead \<and>
     s' = s\<lparr>readers := (readers s)(i := Some (if err \<noteq> None then RFailed else RSelect c)),
            chunks := (chunks s)(i := chunks s i @ [c])\<rparr>"
  by (auto simp: r_read_def split: option.splits reader_pc.splits)

lemma r_mark_closed_Some:
  "r_mark_closed i s = Some s' \<longleftrightarrow>
     readers s i = Some RFailed \<and>
     s' = (upd i (\<lambda>x. x\<lparr>Open := False\<rparr>) s)\<lparr>readers := (readers s)(i := Some RPublishLast)\<rparr>"
  by (auto simp: r_mark_closed_def split: option.splits reader_pc.splits)

lemma r_select_Some:
  "r_select i done s = Some s' \<longleftrightarrow>
     (\<exists>c. readers s i = Some (RSelect c) \<and>
          s' = s\<lparr>readers := (readers s)(i := Some (if done then RDone else RLock c))\<rparr>)"
  by (auto simp: r_select_def split: option.splits reader_pc.splits)

lemma r_lock_Some:
  "r_lock i s = Some s' \<longleftrightarrow>
     (\<exists>c x. readers s i = Some (RLock c) \<and> sessions s i = Some x \<and> Mutex x = None \<and>
        s' = (upd i (\<lambda>x. x\<lparr>Mutex := Some Reader\<rparr>) s)\<lparr>readers := (readers s)(i := Some (RWrite c))\<rparr>)"
  by (auto simp: r_lock_def split: option.splits reader_pc.splits)

lemma r_write_Some:
  "r_write i n werr s = Some s' \<longleftrightarrow>
     (\<exists>c. readers s i = Some (RWrite c) \<and>
        s' = (if 0 < length c
              then (upd i (\<lambda>x. x\<lparr>Buf := Buf x @ (if werr = None then c else take n c)\<rparr>) s)
                     \<lparr>readers := (readers s)(i := Some (RUnlock werr))\<rparr>
              else s\<lparr>readers := (readers s)(i := Some (RUnlock None))\<rparr>))"
  by (auto simp: r_write_def split: option.splits reader_pc.splits)

lemma r_unlock_Some:
  "r_unlock i s = Some s' \<longleftrightarrow>
     (\<exists>err. readers s i = Some (RUnlock err) \<and>
        s' = (upd i (\<lambda>x. x\<lparr>Mutex := None\<rparr>) s)
               \<lparr>readers := (readers s)(i := Some (if err \<noteq> None then RDone else RPublish))\<rparr>)"
  by (auto simp: r_unlock_def split: option.splits reader_pc.splits)

lemma publish_Some:
  "publish i s = Some s' \<longleftrightarrow>
     sender s = SSelect \<and>
     (readers s i = Some RPublish \<and> s' = s\<lparr>sender := SLock i, readers := (readers s)(i := Some RRead)\<rparr>
      \<or> readers s i = Some RPublishLast \<and> s' = s\<lparr>sender := SLock i, readers := (readers s)(i := Some RDone)\<rparr>)"
  by (auto simp: publish_def split: option.splits reader_pc.splits sender_pc.splits)

lemma s_done_Some:
  "s_done c s = Some s' \<longleftrightarrow>
     (\<exists>e. sender s = SSelect \<and> Err c = Some e \<and>
        s' = s\<lparr>sender := SReturned (if e = Canceled then None else Some (CtxErr e))\<rparr>)"
  by (auto simp: s_done_def split: option.splits sender_pc.splits)

lemma s_lock_Some:
  "s_lock s = Some s' \<longleftrightarrow>
     (\<exists>i x. sender s = SLock i \<and> sessions s i = Some x \<and> Mutex x = None \<and>
        s' = (upd i (\<lambda>x. x\<lparr>Mutex := Some Sender\<rparr>) s)\<lparr>sender := SDrain i\<rparr>)"
  by (auto simp: s_lock_def split: option.splits sender_pc.splits)

lemma s_drain_Some:
  "s_drain s = Some s' \<longleftrightarrow>
     (\<exists>i x. sender s = SDrain i \<and> sessions s i = Some x \<and>
        s' = (upd i (\<lambda>x. x\<lparr>Buf := []\<rparr>) s)\<lparr>sender := SBuild i (Buf x)\<rparr>)"
  by (auto simp: s_drain_def Buf_Read_all split: option.splits sender_pc.splits)

lemma s_build_Some:
  "s_build s = Some s' \<longleftrightarrow>
     (\<exists>i bytes x. sender s = SBuild i bytes \<and> sessions s i = Some x \<and>
        s' = s\<lparr>sender := SUnlock i \<lparr>RequestId = Id x, Data = bytes, ShouldClose = \<not> Open x\<rparr>\<rparr>)"
  by (auto simp: s_build_def split: option.splits sender_pc.splits)

lemma s_unlock_Some:
  "s_unlock s = Some s' \<longleftrightarrow>
     (\<exists>i resp. sender s = SUnlock i resp \<and>
        s' = (upd i (\<lambda>x. x\<lparr>Mutex := None\<rparr>) s)\<lparr>sender := SSend resp\<rparr>)"
  by (auto simp: s_unlock_def split: option.splits sender_pc.splits)

lemma s_send_Some:
  "s_send res s = Some s' \<longleftrightarrow>
     (\<exists>resp. sender s = SSend resp \<and>
        s' = s\<lparr>stream_sends := stream_sends s @ [(resp, res)],
               sender := (if res \<noteq> None then SReturned res else SSelect)\<rparr>)"
  by (auto simp: s_send_def split: option.splits sender_pc.splits)

lemma v_recv_Some:
  "v_recv r s = Some s' \<longleftrightarrow>
     receiver s = VRecv \<and>
     s' = s\<lparr>receiver := (case r of Inl err \<Rightarrow> VReturned (Some (XNew ''error reading from stream'' err))
                          | Inr m \<Rightarrow> VSelect m)\<rparr>"
  by (auto simp: v_recv_def split: receiver_pc.splits)

lemma v_select_Some:
  "v_select L c cs s = Some s' \<longleftrightarrow>
     (\<exists>m. receiver s = VSelect m \<and>
        (case Err c of
           Some e \<Rightarrow>
             s' = s\<lparr>receiver := VReturned (if e = Canceled then cs else WithWrapper L (Some (CtxErr e)) cs)\<rparr>
         | None \<Rightarrow>
             (case sessions s (uuid_Parse L (RequestId_in m)) of
                None \<Rightarrow> s' = s\<lparr>receiver := VDial m (uuid_Parse L (RequestId_in m))\<rparr>
              | Some x \<Rightarrow>
                  s' = (if ShouldClose_in m
                        then upd (uuid_Parse L (RequestId_in m)) (\<lambda>x. x\<lparr>Open := False\<rparr>) s else s)
                       \<lparr>receiver := VHandle m (uuid_Parse L (RequestId_in m))\<rparr>)))"
  by (auto simp: v_select_def Let_def split: option.splits receiver_pc.splits)

lemma v_dial_Some:
  "v_dial r s = Some s' \<longleftrightarrow>
     (\<exists>m i. receiver s = VDial m i \<and>
        s' = (case r of
                Some err \<Rightarrow> s\<lparr>receiver := VReply i\<rparr>
              | None \<Rightarrow> s\<lparr>sessions := (sessions s)(i := Some (NewSessionFromStream i)),
                          readers := (readers s)(i := Some RRead),
                          receiver := VHandle m i\<rparr>))"
  by (auto simp: v_dial_def split: option.splits receiver_pc.splits)

lemma v_reply_Some:
  "v_reply res s = Some s' \<longleftrightarrow>
     (\<exists>i. receiver s = VReply i \<and>
        s' = s\<lparr>stream_sends := stream_sends s @ [(\<lparr>RequestId = i, Data = [], ShouldClose = True\<rparr>, res)],
               receiver := VRecv\<rparr>)"
  by (auto simp: v_reply_def split: receiver_pc.splits)

lemma v_handle_Some:
  "v_handle s = Some s' \<longleftrightarrow>
     (\<exists>m i x. receiver s = VHandle m i \<and> sessions s i = Some x \<and>
        s' = (if Open x = False then (upd i Close s)\<lparr>receiver := VRecv\<rparr>
              else if 0 < length (Data_in m) then s\<lparr>receiver := VHLock m i\<rparr>
              else s\<lparr>receiver := VRecv\<rparr>))"
  by (auto simp: v_handle_def split: option.splits receiver_pc.splits)

lemma v_hlock_Some:
  "v_hlock s = Some s' \<longleftrightarrow>
     (\<exists>m i x. receiver s = VHLock m i \<and> sessions s i = Some x \<and> Mutex x = None \<and>
        s' = (upd i (\<lambda>x. x\<lparr>Mutex := Some Receiver\<rparr>) s)\<lparr>receiver := VHWrite m i\<rparr>)"
  by (auto simp: v_hlock_def split: option.splits receiver_pc.splits)

lemma v_hwrite_Some:
  "v_hwrite res s = Some s' \<longleftrightarrow>
     (\<exists>m i. receiver s = VHWrite m i \<and>
        s' = (if res = None then upd i (\<lambda>x. x\<lparr>Written := Written x @ [Data_in m]\<rparr>) s else s)
             \<lparr>receiver := VHUnlock i res\<rparr>)"
  by (auto simp: v_hwrite_def split: receiver_pc.splits)

lemma v_hunlock_Some:
  "v_hunlock s = Some s' \<longleftrightarrow>
     (\<exists>i err. receiver s = VHUnlock i err \<and>
        s' = (upd i (\<lambda>x. if err \<noteq> None then Close (x\<lparr>Mutex := None\<rparr>) else x\<lparr>Mutex := None\<rparr>) s)
             \<lparr>receiver := VRecv\<rparr>)"
  by (auto simp: v_hunlock_def split: receiver_pc.splits)

lemmas step_defs = r_read_def r_mark_closed_def r_select_def r_lock_def r_write_def r_unlock_def
  publish_def s_done_def s_lock_def s_drain_def s_build_def s_unlock_def s_send_def
  v_recv_def v_select_def v_dial_def v_reply_def v_handle_def v_hlock_def v_hwrite_def v_hunlock_def

section \<open>The invariant is kept by every step\<close>

lemma ok_reader_session: "ok s j \<Longrightarrow> readers s j = Some pc \<Longrightarrow> \<exists>x. sessions s j = Some x"
  by (cases "sessions s j") (simp_all add: ok_def)

lemma ok_sender_session: "ok s j \<Longrightarrow> sender_on (sender s) j \<Longrightarrow> \<exists>x. sessions s j = Some x"
  by (cases "sessions s j") (simp_all add: ok_def)

lemma ok_receiver_session: "ok s j \<Longrightarrow> receiver_on (receiver s) j \<Longrightarrow> \<exists>x. sessions s j = Some x"
  by (cases "sessions s j") (simp_all add: ok_def)

lemma ok_new_session: "ok s j \<Longrightarrow> receiver_new (receiver s) j \<Longrightarrow> sessions s j = None"
  by (cases "sessions s j") (simp_all add: ok_def)

lemma ok_session_reader: "ok s j \<Longrightarrow> sessions s j = Some x \<Longrightarrow> \<exists>pc. readers s j = Some pc"
  by (cases "readers s j") (simp_all add: ok_def)

lemma ok_cong:
  "sessions s' j = sessions s j \<Longrightarrow> readers s' j = readers s j \<Longrightarrow> chunks s' j = chunks s j \<Longrightarrow>
   sender s' = sender s \<Longrightarrow> receiver s' = receiver s \<Longrightarrow> sent s' = sent s \<Longrightarrow> ok s' j = ok s j"
  unfolding ok_def owner_def by (simp only:)

lemma data_drop: "p @ f @ b @ c = C \<Longrightarrow> prefix (p @ f @ b) (C :: byte list)"
  by (metis append.assoc prefixI)

lemma data_take: "p @ f @ b @ c = C \<Longrightarrow> prefix (p @ f @ b @ take n c) (C :: byte list)"
  by (metis append.assoc append_take_drop_id prefixI)

lemma inv_r_read:
  assumes "r_read i c err s = Some s'" and "invariant s"
  shows "invariant s'"
proof -
  from assms(1) have pc: "readers s i = Some RRead"
    and s': "s' = s\<lparr>readers := (readers s)(i := Some (if err \<noteq> None then RFailed else RSelect c)),
            chunks := (chunks s)(i := chunks s i @ [c])\<rparr>"
    by (simp_all add: r_read_Some)
  have "ok s' j" for j
  proof (cases "j = i")
    case False
    from assms(2) have "ok s j" by (simp add: invariant_def)
    moreover have "ok s' j = ok s j" using False by (intro ok_cong) (simp_all add: s')
    ultimately show ?thesis by simp
  next
    case True
    from assms(2) have "ok s i" by (simp add: invariant_def)
    then obtain x where x: "sessions s i = Some x" using pc ok_reader_session by blast
    from \<open>ok s i\<close> x pc show ?thesis unfolding True s'
      by (cases err; cases "sender_running (sender s)"; simp add: ok_def owner_def x)
  qed
  moreover from assms(2) have "well_tagged (sender s')" by (simp add: invariant_def s')
  ultimately show ?thesis by (simp add: invariant_def)
qed

lemma inv_r_mark_closed:
  assumes "r_mark_closed i s = Some s'" and "invariant s"
  shows "invariant s'"
proof -
  from assms(1) have pc: "readers s i = Some RFailed"
    and s': "s' = (upd i (\<lambda>x. x\<lparr>Open := False\<rparr>) s)\<lparr>readers := (readers s)(i := Some RPublishLast)\<rparr>"
    by (simp_all add: r_mark_closed_Some)
  have "ok s' j" for j
  proof (cases "j = i")
    case False
    from assms(2) have "ok s j" by (simp add: invariant_def)
    moreover have "ok s' j = ok s j" using False by (intro ok_cong) (simp_all add: s')
    ultimately show ?thesis by simp
  next
    case True
    from assms(2) have "ok s i" by (simp add: invariant_def)
    then obtain x where x: "sessions s i = Some x" using pc ok_reader_session by blast
    from \<open>ok s i\<close> x pc show ?thesis unfolding True s'
      by (simp add: ok_def owner_def x)
  qed
  moreover from assms(2) have "well_tagged (sender s')" by (simp add: invariant_def s')
  ultimately show ?thesis by (simp add: invariant_def)
qed

lemma inv_r_select:
  assumes "r_select i done s = Some s'" and "invariant s"
  shows "invariant s'"
proof -
  from assms(1) obtain c where pc: "readers s i = Some (RSelect c)"
    and s': "s' = s\<lparr>readers := (readers s)(i := Some (if done then RDone else RLock c))\<rparr>"
    by (auto simp: r_select_Some)
  have "ok s' j" for j
  proof (cases "j = i")
    case False
    from assms(2) have "ok s j" by (simp add: invariant_def)
    moreover have "ok s' j = ok s j" using False by (intro ok_cong) (simp_all add: s')
    ultimately show ?thesis by simp
  next
    case True
    from assms(2) have "ok s i" by (simp add: invariant_def)
    then obtain x where x: "sessions s i = Some x" using pc ok_reader_session by blast
    from \<open>ok s i\<close> x pc show ?thesis unfolding True s'
      by (cases "sender_running (sender s)"; auto simp add: ok_def owner_def x intro: data_drop)
  qed
  moreover from assms(2) have "well_tagged (sender s')" by (simp add: invariant_def s')
  ultimately show ?thesis by (simp add: invariant_def)
qed

lemma inv_r_lock:
  assumes "r_lock i s = Some s'" and "invariant s"
  shows "invariant s'"
proof -
  from assms(1) obtain c x where pc: "readers s i = Some (RLock c)"
    and x: "sessions s i = Some x" and free: "Mutex x = None"
    and s': "s' = (upd i (\<lambda>x. x\<lparr>Mutex := Some Reader\<rparr>) s)\<lparr>readers := (readers s)(i := Some (RWrite c))\<rparr>"
    by (auto simp: r_lock_Some)
  have "ok s' j" for j
  proof (cases "j = i")
    case False
    from assms(2) have "ok s j" by (simp add: invariant_def)
    moreover have "ok s' j = ok s j" using False by (intro ok_cong) (simp_all add: s')
    ultimately show ?thesis by simp
  next
    case True
    from assms(2) have "ok s i" by (simp add: invariant_def)
    with x pc free show ?thesis unfolding True s'
      by (simp add: ok_def owner_def split: if_splits)
  qed
  moreover from assms(2) have "well_tagged (sender s')" by (simp add: invariant_def s')
  ultimately show ?thesis by (simp add: invariant_def)
qed

lemma inv_r_write:
  assumes "r_write i n werr s = Some s'" and "invariant s"
  shows "invariant s'"
proof -
  from assms(1) obtain c where pc: "readers s i = Some (RWrite c)"
    and s': "s' = (if 0 < length c
              then (upd i (\<lambda>x. x\<lparr>Buf := Buf x @ (if werr = None then c else take n c)\<rparr>) s)
                     \<lparr>readers := (readers s)(i := Some (RUnlock werr))\<rparr>
              else s\<lparr>readers := (readers s)(i := Some (RUnlock None))\<rparr>)"
    by (auto simp: r_write_Some)
  have "ok s' j" for j
  proof (cases "j = i")
    case False
    from assms(2) have "ok s j" by (simp add: invariant_def)
    moreover have "ok s' j = ok s j" using False by (intro ok_cong) (simp_all add: s')
    ultimately show ?thesis by simp
  next
    case True
    from assms(2) have "ok s i" by (simp add: invariant_def)
    then obtain x where x: "sessions s i = Some x" using pc ok_reader_session by blast
    from \<open>ok s i\<close> x pc show ?thesis unfolding True s'
      by (cases werr; cases "sender_running (sender s)"; cases "c = []"; auto simp add: ok_def owner_def x intro: data_take)
  qed
  moreover from assms(2) have "well_tagged (sender s')" by (simp add: invariant_def s')
  ultimately show ?thesis by (simp add: invariant_def)
qed

lemma inv_r_unlock:
  assumes "r_unlock i s = Some s'" and "invariant s"
  shows "invariant s'"
proof -
  from assms(1) obtain err where pc: "readers s i = Some (RUnlock err)"
    and s': "s' = (upd i (\<lambda>x. x\<lparr>Mutex := None\<rparr>) s)
               \<lparr>readers := (readers s)(i := Some (if err \<noteq> None then RDone else RPublish))\<rparr>"
    by (auto simp: r_unlock_Some)
  have "ok s' j" for j
  proof (cases "j = i")
    case False
    from assms(2) have "ok s j" by (simp add: invariant_def)
    moreover have "ok s' j = ok s j" using False by (intro ok_cong) (simp_all add: s')
    ultimately show ?thesis by simp
  next
    case True
    from assms(2) have "ok s i" by (simp add: invariant_def)
    then obtain x where x: "sessions s i = Some x" using pc ok_reader_session by blast
    from \<open>ok s i\<close> x pc show ?thesis unfolding True s'
      by (cases err; cases "sender_running (sender s)"; cases "Mutex x"; simp add: ok_def owner_def x split: if_splits)
  qed
  moreover from assms(2) have "well_tagged (sender s')" by (simp add: invariant_def s')
  ultimately show ?thesis by (simp add: invariant_def)
qed

lemma inv_publish:
  assumes "publish i s = Some s'" and "invariant s"
  shows "invariant s'"
proof -
  from assms(1) have snd: "sender s = SSelect"
    and pc: "readers s i = Some RPublish \<and> s' = s\<lparr>sender := SLock i, readers := (readers s)(i := Some RRead)\<rparr>
      \<or> readers s i = Some RPublishLast \<and> s' = s\<lparr>sender := SLock i, readers := (readers s)(i := Some RDone)\<rparr>"
    by (simp_all add: publish_Some)
  from assms(2) have oki: "ok s i" by (simp add: invariant_def)
  with pc obtain x where x: "sessions s i = Some x" using ok_reader_session by blast
  have "ok s' j" for j
  proof -
    from assms(2) have okj: "ok s j" by (simp add: invariant_def)
    show ?thesis
    proof (cases "j = i")
      case True
      with oki x pc snd show ?thesis
        by (auto simp: ok_def owner_def)
    next
      case False
      show ?thesis
      proof (cases "sessions s j")
        case None
        with okj False snd pc show ?thesis
          by (auto simp: ok_def owner_def)
      next
        case (Some y)
        with okj obtain q where q: "readers s j = Some q" using ok_session_reader by blast
        from okj False Some q snd pc show ?thesis
          by (cases "carried q"; auto simp: ok_def owner_def)
      qed
    qed
  qed
  moreover from pc have "well_tagged (sender s')" by auto
  ultimately show ?thesis by (simp add: invariant_def)
qed

lemma data_sent: "prefix (p @ f @ b) C \<Longrightarrow> prefix (p @ f) (C :: byte list)"
  by (metis append.assoc append_prefixD)

lemma data_sent': "p @ f @ b @ c = C \<Longrightarrow> prefix (p @ f) (C :: byte list)"
  by (metis append.assoc prefixI)

lemma inv_s_done:
  assumes "s_done c s = Some s'" and "invariant s"
  shows "invariant s'"
proof -
  from assms(1) obtain e where snd: "sender s = SSelect"
    and s': "s' = s\<lparr>sender := SReturned (if e = Canceled then None else Some (CtxErr e))\<rparr>"
    by (auto simp: s_done_Some)
  have "ok s' j" for j
  proof -
    from assms(2) have okj: "ok s j" by (simp add: invariant_def)
    with snd show ?thesis unfolding s'
      by (cases "sessions s j"; cases "readers s j"; simp add: ok_def owner_def)
  qed
  moreover have "well_tagged (sender s')" by (simp add: s')
  ultimately show ?thesis by (simp add: invariant_def)
qed

lemma inv_s_lock:
  assumes "s_lock s = Some s'" and "invariant s"
  shows "invariant s'"
proof -
  from assms(1) obtain i x where snd: "sender s = SLock i"
    and x: "sessions s i = Some x" and free: "Mutex x = None"
    and s': "s' = (upd i (\<lambda>x. x\<lparr>Mutex := Some Sender\<rparr>) s)\<lparr>sender := SDrain i\<rparr>"
    by (auto simp: s_lock_Some)
  have "ok s' j" for j
  proof -
    from assms(2) have okj: "ok s j" by (simp add: invariant_def)
    show ?thesis
    proof (cases "j = i")
      case True
      from okj True x obtain pc where pc: "readers s i = Some pc" using ok_session_reader by blast
      from okj True x pc snd  free show ?thesis unfolding s'
        by (cases "carried pc"; cases "Mutex x"; simp add: ok_def owner_def split: if_splits)
    next
      case False
      show ?thesis
      proof (cases "sessions s j")
        case None
        with okj False snd  show ?thesis unfolding s'
          by (simp add: ok_def owner_def)
      next
        case (Some y)
        with okj obtain pc where pc: "readers s j = Some pc" using ok_session_reader by blast
        from okj False Some pc snd  show ?thesis unfolding s'
          by (cases "carried pc"; simp add: ok_def owner_def)
      qed
    qed
  qed
  moreover have "well_tagged (sender s')" by (simp add: s')
  ultimately show ?thesis by (simp add: invariant_def)
qed

lemma inv_s_drain:
  assumes "s_drain s = Some s'" and "invariant s"
  shows "invariant s'"
proof -
  from assms(1) obtain i x where snd: "sender s = SDrain i"
    and x: "sessions s i = Some x"
    and s': "s' = (upd i (\<lambda>x. x\<lparr>Buf := []\<rparr>) s)\<lparr>sender := SBuild i (Buf x)\<rparr>"
    by (auto simp: s_drain_Some)
  have "ok s' j" for j
  proof -
    from assms(2) have okj: "ok s j" by (simp add: invariant_def)
    show ?thesis
    proof (cases "j = i")
      case True
      from okj True x obtain pc where pc: "readers s i = Some pc" using ok_session_reader by blast
      from okj True x pc snd  show ?thesis unfolding s'
        by (cases "carried pc"; cases "Mutex x"; simp add: ok_def owner_def split: if_splits)
    next
      case False
      show ?thesis
      proof (cases "sessions s j")
        case None
        with okj False snd  show ?thesis unfolding s'
          by (simp add: ok_def owner_def)
      next
        case (Some y)
        with okj obtain pc where pc: "readers s j = Some pc" using ok_session_reader by blast
        from okj False Some pc snd  show ?thesis unfolding s'
          by (cases "carried pc"; simp add: ok_def owner_def)
      qed
    qed
  qed
  moreover have "well_tagged (sender s')" by (simp add: s')
  ultimately show ?thesis by (simp add: invariant_def)
qed

lemma inv_s_build:
  assumes "s_build s = Some s'" and "invariant s"
  shows "invariant s'"
proof -
  from assms(1) obtain i bytes x where snd: "sender s = SBuild i bytes"
    and x: "sessions s i = Some x"
    and s': "s' = s\<lparr>sender := SUnlock i \<lparr>RequestId = Id x, Data = bytes, ShouldClose = \<not> Open x\<rparr>\<rparr>"
    by (auto simp: s_build_Some)
  from assms(2) have "ok s i" by (simp add: invariant_def)
  with x have idx: "Id x = i" by (simp add: ok_def)
  have "ok s' j" for j
  proof -
    from assms(2) have okj: "ok s j" by (simp add: invariant_def)
    show ?thesis
    proof (cases "j = i")
      case True
      from okj True x obtain pc where pc: "readers s i = Some pc" using ok_session_reader by blast
      from okj True x pc snd  idx show ?thesis unfolding s'
        by (cases "carried pc"; cases "Mutex x"; simp add: ok_def owner_def split: if_splits)
    next
      case False
      show ?thesis
      proof (cases "sessions s j")
        case None
        with okj False snd  idx show ?thesis unfolding s'
          by (simp add: ok_def owner_def)
      next
        case (Some y)
        with okj obtain pc where pc: "readers s j = Some pc" using ok_session_reader by blast
        from okj False Some pc snd  idx show ?thesis unfolding s'
          by (cases "carried pc"; simp add: ok_def owner_def)
      qed
    qed
  qed
  moreover have "well_tagged (sender s')" by (simp add: s' idx)
  ultimately show ?thesis by (simp add: invariant_def)
qed

lemma inv_s_unlock:
  assumes "s_unlock s = Some s'" and "invariant s"
  shows "invariant s'"
proof -
  from assms(1) obtain i resp where snd: "sender s = SUnlock i resp"
    and s': "s' = (upd i (\<lambda>x. x\<lparr>Mutex := None\<rparr>) s)\<lparr>sender := SSend resp\<rparr>"
    by (auto simp: s_unlock_Some)
  from assms(2) snd have tag: "RequestId resp = i" by (simp add: invariant_def)
  from assms(2) have "ok s i" by (simp add: invariant_def)
  then obtain x where x: "sessions s i = Some x" using snd ok_sender_session [of s i] by auto
  have "ok s' j" for j
  proof -
    from assms(2) have okj: "ok s j" by (simp add: invariant_def)
    show ?thesis
    proof (cases "j = i")
      case True
      from okj True x obtain pc where pc: "readers s i = Some pc" using ok_session_reader by blast
      from okj True x pc snd  tag show ?thesis unfolding s'
        by (cases "carried pc"; cases "Mutex x"; simp add: ok_def owner_def split: if_splits)
    next
      case False
      show ?thesis
      proof (cases "sessions s j")
        case None
        with okj False snd  tag show ?thesis unfolding s'
          by (simp add: ok_def owner_def)
      next
        case (Some y)
        with okj obtain pc where pc: "readers s j = Some pc" using ok_session_reader by blast
        from okj False Some pc snd  tag show ?thesis unfolding s'
          by (cases "carried pc"; simp add: ok_def owner_def)
      qed
    qed
  qed
  moreover have "well_tagged (sender s')" by (simp add: s')
  ultimately show ?thesis by (simp add: invariant_def)
qed

lemma inv_s_send:
  assumes "s_send res s = Some s'" and "invariant s"
  shows "invariant s'"
proof -
  from assms(1) obtain resp where snd: "sender s = SSend resp"
    and s': "s' = s\<lparr>stream_sends := stream_sends s @ [(resp, res)],
               sender := (if res \<noteq> None then SReturned res else SSelect)\<rparr>"
    by (auto simp: s_send_Some)
  have "ok s' j" for j
  proof -
    from assms(2) have okj: "ok s j" by (simp add: invariant_def)
    show ?thesis
    proof (cases "sessions s j")
      case None
      with okj snd show ?thesis unfolding s'
        by (cases res; simp add: ok_def owner_def)
    next
      case (Some y)
      with okj obtain pc where pc: "readers s j = Some pc" using ok_session_reader by blast
      from okj Some pc snd show ?thesis unfolding s'
        by (cases res; cases "carried pc"; auto simp add: ok_def owner_def intro: data_sent data_sent')
    qed
  qed
  moreover have "well_tagged (sender s')" by (simp add: s')
  ultimately show ?thesis by (simp add: invariant_def)
qed


lemma sender_cs_on: "sender_cs pc i \<Longrightarrow> sender_on pc i"
  by (cases pc) simp_all

lemma receiver_cs_on: "receiver_cs pc i \<Longrightarrow> receiver_on pc i"
  by (cases pc) simp_all

lemma inv_v_recv:
  assumes "v_recv r s = Some s'" and "invariant s"
  shows "invariant s'"
proof -
  from assms(1) have rcv: "receiver s = VRecv"
    and s': "s' = s\<lparr>receiver := (case r of Inl err \<Rightarrow> VReturned (Some (XNew ''error reading from stream'' err))
                          | Inr m \<Rightarrow> VSelect m)\<rparr>"
    by (simp_all add: v_recv_Some)
  have "ok s' j" for j
  proof -
    from assms(2) have okj: "ok s j" by (simp add: invariant_def)
    show ?thesis
    proof (cases "sessions s j")
      case None
      with okj rcv show ?thesis unfolding s'
        by (cases r; simp add: ok_def owner_def)
    next
      case (Some y)
      with okj obtain pc where pc: "readers s j = Some pc" using ok_session_reader by blast
      from okj Some pc rcv show ?thesis unfolding s'
        by (cases r; cases "carried pc"; simp add: ok_def owner_def)
    qed
  qed
  moreover from assms(2) have "well_tagged (sender s')" by (simp add: invariant_def s')
  ultimately show ?thesis by (simp add: invariant_def)
qed

lemma inv_v_select:
  assumes "v_select L c cs s = Some s'" and "invariant s"
  shows "invariant s'"
proof -
  from assms(1) obtain m where rcv: "receiver s = VSelect m"
    and s': "(case Err c of
           Some e \<Rightarrow>
             s' = s\<lparr>receiver := VReturned (if e = Canceled then cs else WithWrapper L (Some (CtxErr e)) cs)\<rparr>
         | None \<Rightarrow>
             (case sessions s (uuid_Parse L (RequestId_in m)) of
                None \<Rightarrow> s' = s\<lparr>receiver := VDial m (uuid_Parse L (RequestId_in m))\<rparr>
              | Some x \<Rightarrow>
                  s' = (if ShouldClose_in m
                        then upd (uuid_Parse L (RequestId_in m)) (\<lambda>x. x\<lparr>Open := False\<rparr>) s else s)
                       \<lparr>receiver := VHandle m (uuid_Parse L (RequestId_in m))\<rparr>))"
    by (auto simp: v_select_Some)
  let ?i = "uuid_Parse L (RequestId_in m)"
  have "ok s' j" for j
  proof -
    from assms(2) have okj: "ok s j" by (simp add: invariant_def)
    show ?thesis
    proof (cases "sessions s j")
      case None
      with okj rcv s' show ?thesis
        by (cases "Err c"; cases "sessions s ?i"; cases "j = ?i"; auto simp add: ok_def owner_def)
    next
      case (Some y)
      with okj obtain pc where pc: "readers s j = Some pc" using ok_session_reader by blast
      from okj Some pc rcv s' show ?thesis
        by (cases "Err c"; cases "sessions s ?i"; cases "j = ?i"; cases "carried pc";
            auto simp add: ok_def owner_def)
    qed
  qed
  moreover from assms(2) s' have "well_tagged (sender s')"
    by (cases "Err c"; cases "sessions s ?i"; auto simp add: invariant_def)
  ultimately show ?thesis by (simp add: invariant_def)
qed

lemma inv_v_dial:
  assumes "v_dial r s = Some s'" and "invariant s"
  shows "invariant s'"
proof -
  from assms(1) obtain m i where rcv: "receiver s = VDial m i"
    and s': "s' = (case r of
                Some err \<Rightarrow> s\<lparr>receiver := VReply i\<rparr>
              | None \<Rightarrow> s\<lparr>sessions := (sessions s)(i := Some (NewSessionFromStream i)),
                          readers := (readers s)(i := Some RRead),
                          receiver := VHandle m i\<rparr>)"
    by (auto simp: v_dial_Some)
  from assms(2) have oki: "ok s i" by (simp add: invariant_def)
  with rcv have new: "sessions s i = None" using ok_new_session [of s i] by simp
  have "ok s' j" for j
  proof -
    from assms(2) have okj: "ok s j" by (simp add: invariant_def)
    show ?thesis
    proof (cases "sessions s j")
      case None
      from assms(2) have tag: "well_tagged (sender s)" by (simp add: invariant_def)
      from None okj tag have nf: "in_flight j (sender s) = []"
        by (cases "sender s"; auto simp: ok_def)
      from None okj rcv new nf show ?thesis unfolding s'
        by (cases r; cases "j = i";
            auto simp add: ok_def owner_def NewSessionFromStream_def dest: sender_cs_on)
    next
      case (Some y)
      with new have ne: "j \<noteq> i" by auto
      from Some okj obtain pc where pc: "readers s j = Some pc" using ok_session_reader by blast
      from okj Some pc rcv ne show ?thesis unfolding s'
        by (cases r; cases "carried pc"; simp add: ok_def owner_def)
    qed
  qed
  moreover from assms(2) have "well_tagged (sender s')" by (cases r; simp add: invariant_def s')
  ultimately show ?thesis by (simp add: invariant_def)
qed

lemma inv_v_reply:
  assumes "v_reply res s = Some s'" and "invariant s"
  shows "invariant s'"
proof -
  from assms(1) obtain i where rcv: "receiver s = VReply i"
    and s': "s' = s\<lparr>stream_sends := stream_sends s @ [(\<lparr>RequestId = i, Data = [], ShouldClose = True\<rparr>, res)],
               receiver := VRecv\<rparr>"
    by (auto simp: v_reply_Some)
  have "ok s' j" for j
  proof -
    from assms(2) have okj: "ok s j" by (simp add: invariant_def)
    show ?thesis
    proof (cases "sessions s j")
      case None
      with okj rcv show ?thesis unfolding s'
        by (simp add: ok_def owner_def)
    next
      case (Some y)
      with okj obtain pc where pc: "readers s j = Some pc" using ok_session_reader by blast
      from okj Some pc rcv show ?thesis unfolding s'
        by (cases "carried pc"; simp add: ok_def owner_def)
    qed
  qed
  moreover from assms(2) have "well_tagged (sender s')" by (simp add: invariant_def s')
  ultimately show ?thesis by (simp add: invariant_def)
qed

lemma inv_v_handle:
  assumes "v_handle s = Some s'" and "invariant s"
  shows "invariant s'"
proof -
  from assms(1) obtain m i x where rcv: "receiver s = VHandle m i" and x: "sessions s i = Some x"
    and s': "s' = (if Open x = False then (upd i Close s)\<lparr>receiver := VRecv\<rparr>
              else if 0 < length (Data_in m) then s\<lparr>receiver := VHLock m i\<rparr>
              else s\<lparr>receiver := VRecv\<rparr>)"
    by (auto simp: v_handle_Some)
  have "ok s' j" for j
  proof -
    from assms(2) have okj: "ok s j" by (simp add: invariant_def)
    show ?thesis
    proof (cases "sessions s j")
      case None
      with okj rcv x show ?thesis unfolding s'
        by (auto simp add: ok_def owner_def)
    next
      case (Some y)
      with okj obtain pc where pc: "readers s j = Some pc" using ok_session_reader by blast
      from okj Some pc rcv x show ?thesis unfolding s'
        by (cases "carried pc"; cases "j = i"; auto simp add: ok_def owner_def Close_def)
    qed
  qed
  moreover from assms(2) have "well_tagged (sender s')" by (simp add: invariant_def s')
  ultimately show ?thesis by (simp add: invariant_def)
qed

lemma inv_v_hlock:
  assumes "v_hlock s = Some s'" and "invariant s"
  shows "invariant s'"
proof -
  from assms(1) obtain m i x where rcv: "receiver s = VHLock m i" and x: "sessions s i = Some x"
    and free: "Mutex x = None"
    and s': "s' = (upd i (\<lambda>x. x\<lparr>Mutex := Some Receiver\<rparr>) s)\<lparr>receiver := VHWrite m i\<rparr>"
    by (auto simp: v_hlock_Some)
  have "ok s' j" for j
  proof -
    from assms(2) have okj: "ok s j" by (simp add: invariant_def)
    show ?thesis
    proof (cases "sessions s j")
      case None
      with okj rcv x show ?thesis unfolding s'
        by (auto simp add: ok_def owner_def)
    next
      case (Some y)
      with okj obtain pc where pc: "readers s j = Some pc" using ok_session_reader by blast
      from okj Some pc rcv x free show ?thesis unfolding s'
        by (cases "carried pc"; cases "j = i"; auto simp add: ok_def owner_def split: if_splits)
    qed
  qed
  moreover from assms(2) have "well_tagged (sender s')" by (simp add: invariant_def s')
  ultimately show ?thesis by (simp add: invariant_def)
qed

lemma inv_v_hwrite:
  assumes "v_hwrite res s = Some s'" and "invariant s"
  shows "invariant s'"
proof -
  from assms(1) obtain m i where rcv: "receiver s = VHWrite m i"
    and s': "s' = (if res = None then upd i (\<lambda>x. x\<lparr>Written := Written x @ [Data_in m]\<rparr>) s else s)
             \<lparr>receiver := VHUnlock i res\<rparr>"
    by (auto simp: v_hwrite_Some)
  have "ok s' j" for j
  proof -
    from assms(2) have okj: "ok s j" by (simp add: invariant_def)
    show ?thesis
    proof (cases "sessions s j")
      case None
      with okj rcv show ?thesis unfolding s'
        by (auto simp add: ok_def owner_def)
    next
      case (Some y)
      with okj obtain pc where pc: "readers s j = Some pc" using ok_session_reader by blast
      from okj Some pc rcv show ?thesis unfolding s'
        by (cases "carried pc"; cases "j = i"; auto simp add: ok_def owner_def)
    qed
  qed
  moreover from assms(2) have "well_tagged (sender s')" by (simp add: invariant_def s')
  ultimately show ?thesis by (simp add: invariant_def)
qed

lemma inv_v_hunlock:
  assumes "v_hunlock s = Some s'" and "invariant s"
  shows "invariant s'"
proof -
  from assms(1) obtain i err where rcv: "receiver s = VHUnlock i err"
    and s': "s' = (upd i (\<lambda>x. if err \<noteq> None then Close (x\<lparr>Mutex := None\<rparr>) else x\<lparr>Mutex := None\<rparr>) s)
             \<lparr>receiver := VRecv\<rparr>"
    by (auto simp: v_hunlock_Some)
  have "ok s' j" for j
  proof -
    from assms(2) have okj: "ok s j" by (simp add: invariant_def)
    show ?thesis
    proof (cases "sessions s j")
      case None
      with okj rcv show ?thesis unfolding s'
        by (auto simp add: ok_def owner_def)
    next
      case (Some y)
      with okj obtain pc where pc: "readers s j = Some pc" using ok_session_reader by blast
      from okj Some pc rcv show ?thesis unfolding s'
        by (cases "carried pc"; cases "j = i"; cases "Mutex y"; auto simp add: ok_def owner_def Close_def split: if_splits)
    qed
  qed
  moreover from assms(2) have "well_tagged (sender s')" by (simp add: invariant_def s')
  ultimately show ?thesis by (simp add: invariant_def)
qed

lemma inv_init: "invariant init"
  by (simp add: invariant_def ok_def init_def sent_def)

lemma inv_step: "step L a s = Some s' \<Longrightarrow> invariant s \<Longrightarrow> invariant s'"
  by (cases a)
     (simp_all add: inv_r_read inv_r_mark_closed inv_r_select inv_r_lock inv_r_write inv_r_unlock
        inv_publish inv_s_done inv_s_lock inv_s_drain inv_s_build inv_s_unlock inv_s_send
        inv_v_recv inv_v_select inv_v_dial inv_v_reply inv_v_handle inv_v_hlock inv_v_hwrite
        inv_v_hunlock)

lemma inv_exec: "exec L as s = Some s' \<Longrightarrow> invariant s \<Longrightarrow> invariant s'"
proof (induction as arbitrary: s)
  case Nil
  then show ?case by simp
next
  case (Cons a as)
  then show ?case by (auto split: option.splits dest: inv_step)
qed

section \<open>Every byte read is accounted for\<close>

lemma refused_simps [simp]:
  "refused i (upd j f s) = refused i s"
  "refused i (s\<lparr>readers := r\<rparr>) = refused i s"
  "refused i (s\<lparr>sender := p\<rparr>) = refused i s"
  "refused i (s\<lparr>receiver := q\<rparr>) = refused i s"
  "refused i (s\<lparr>chunks := ch\<rparr>) = refused i s"
  "refused i (s\<lparr>sessions := ss\<rparr>) = refused i s"
  "refused i (s\<lparr>stream_sends := stream_sends s @ [(fr, res)]\<rparr>)
     = refused i s @ (if res \<noteq> None \<and> RequestId fr = i then Data fr else [])"
  by (simp_all add: refused_def)












lemma Buf_kept [simp]:
  "map_option Buf (map_option (\<lambda>x. x\<lparr>Mutex := m\<rparr>) y) = map_option Buf y"
  "map_option Buf (map_option (\<lambda>x. x\<lparr>Open := b\<rparr>) y) = map_option Buf y"
  "map_option Buf (map_option (\<lambda>x. x\<lparr>Written := w x\<rparr>) y) = map_option Buf y"
  "map_option Buf (map_option Close y) = map_option Buf y"
  "map_option Buf (map_option (\<lambda>x. if c then Close (x\<lparr>Mutex := m\<rparr>) else x\<lparr>Mutex := m\<rparr>) y)
     = map_option Buf y"
  by (cases y; simp add: Close_def)+



















section \<open>The claims about the loops\<close>

lemma receiver_returns:
  assumes "step L a s = Some s'" and "receiver s' = VReturned r" and "receiver s \<noteq> VReturned r"
  shows "(\<exists>err. a = V_Recv (Inl err) \<and> r = Some (XNew ''error reading from stream'' err))
       \<or> (\<exists>c cs e. a = V_Select c cs \<and> Err c = Some e
             \<and> r = (if e = Canceled then cs else WithWrapper L (Some (CtxErr e)) cs))"
proof (cases a)
  case (V_Recv x)
  with assms show ?thesis by (cases x) (auto simp: v_recv_Some)
next
  case (V_Select c cs)
  with assms show ?thesis
    by (cases "Err c") (auto simp: v_select_Some split: option.splits if_splits)
next
  case (V_Dial x)
  with assms show ?thesis by (cases x) (auto simp: v_dial_Some)
next
  case V_Handle
  with assms show ?thesis by (auto simp: v_handle_Some split: if_splits)
qed (use assms in \<open>auto simp: r_read_Some r_mark_closed_Some r_select_Some r_lock_Some r_write_Some
      r_unlock_Some publish_Some s_done_Some s_lock_Some s_drain_Some s_build_Some s_unlock_Some
      s_send_Some v_reply_Some v_hlock_Some v_hwrite_Some v_hunlock_Some split: if_splits\<close>)

text \<open>
  Claim C2, amended. At the \<^verbatim>\<open>select\<close> after a successful receive, with the context done:
  when \<^verbatim>\<open>Err()\<close> is \<^verbatim>\<open>context.Canceled\<close>, whatever cause was recorded, the loop returns what
  \<^verbatim>\<open>CloseSend\<close> returns; when \<^verbatim>\<open>Err()\<close> is the deadline error it returns
  \<^verbatim>\<open>WithWrapper(err, CloseSend())\<close>. The only other step that makes the loop return is a
  failed \<^verbatim>\<open>Recv\<close>, returned under the message \<open>error reading from stream\<close>. A failed dial
  leads to one reply and back to \<^verbatim>\<open>Recv\<close>, also when the reply fails.
\<close>

theorem ReceiveData_termination:
  "(receiver s = VSelect m \<and> Err c = Some Canceled \<longrightarrow>
      step L (V_Select c cs) s = Some (s\<lparr>receiver := VReturned cs\<rparr>))
   \<and> (receiver s = VSelect m \<and> Err c = Some DeadlineExceeded \<longrightarrow>
      step L (V_Select c cs) s =
        Some (s\<lparr>receiver := VReturned (WithWrapper L (Some (CtxErr DeadlineExceeded)) cs)\<rparr>))
   \<and> (step L a t = Some t' \<and> receiver t' = VReturned r \<and> receiver t \<noteq> VReturned r \<longrightarrow>
        (\<exists>err. a = V_Recv (Inl err) \<and> r = Some (XNew ''error reading from stream'' err))
        \<or> (\<exists>c cs e. a = V_Select c cs \<and> Err c = Some e
              \<and> r = (if e = Canceled then cs else WithWrapper L (Some (CtxErr e)) cs)))
   \<and> (receiver u = VDial m' i \<longrightarrow>
        exec L [V_Dial (Some derr), V_Reply res] u =
          Some (u\<lparr>stream_sends := stream_sends u @ [(\<lparr>RequestId = i, Data = [], ShouldClose = True\<rparr>, res)],
                 receiver := VRecv\<rparr>))"
proof (intro conjI impI)
  assume "receiver s = VSelect m \<and> Err c = Some Canceled"
  then show "step L (V_Select c cs) s = Some (s\<lparr>receiver := VReturned cs\<rparr>)"
    by (simp add: v_select_def)
next
  assume "receiver s = VSelect m \<and> Err c = Some DeadlineExceeded"
  then show "step L (V_Select c cs) s =
        Some (s\<lparr>receiver := VReturned (WithWrapper L (Some (CtxErr DeadlineExceeded)) cs)\<rparr>)"
    by (simp add: v_select_def)
next
  assume "step L a t = Some t' \<and> receiver t' = VReturned r \<and> receiver t \<noteq> VReturned r"
  then show "(\<exists>err. a = V_Recv (Inl err) \<and> r = Some (XNew ''error reading from stream'' err))
        \<or> (\<exists>c cs e. a = V_Select c cs \<and> Err c = Some e
              \<and> r = (if e = Canceled then cs else WithWrapper L (Some (CtxErr e)) cs))"
    using receiver_returns [of L a t t' r] by blast
next
  assume "receiver u = VDial m' i"
  then show "exec L [V_Dial (Some derr), V_Reply res] u =
          Some (u\<lparr>stream_sends := stream_sends u @ [(\<lparr>RequestId = i, Data = [], ShouldClose = True\<rparr>, res)],
                 receiver := VRecv\<rparr>)"
    by (simp add: v_dial_def v_reply_def)
qed

theorem ReceiveData_termination_witness:
  "receiver (init\<lparr>receiver := VSelect m0\<rparr>) = VSelect m0 \<and> Err canceled_ctx = Some Canceled
   \<and> step go_lib (V_Select canceled_ctx (Some (Failure ''half-close''))) (init\<lparr>receiver := VSelect m0\<rparr>)
       = Some (init\<lparr>receiver := VReturned (Some (Failure ''half-close''))\<rparr>)
   \<and> Err \<lparr>Err = Some DeadlineExceeded, Cause = Some (CtxErr DeadlineExceeded)\<rparr> = Some DeadlineExceeded
   \<and> step go_lib (V_Select \<lparr>Err = Some DeadlineExceeded, Cause = Some (CtxErr DeadlineExceeded)\<rparr>
          (Some (Failure ''half-close'')))
        (init\<lparr>receiver := VSelect m0\<rparr>)
       = Some (init\<lparr>receiver :=
                 VReturned (Some (Wrapped (CtxErr DeadlineExceeded) (Failure ''half-close'')))\<rparr>)
   \<and> step go_lib (V_Select \<lparr>Err = Some DeadlineExceeded, Cause = Some (CtxErr DeadlineExceeded)\<rparr> None)
        (init\<lparr>receiver := VSelect m0\<rparr>)
       = Some (init\<lparr>receiver := VReturned None\<rparr>)
   \<and> step go_lib (V_Recv (Inl (Failure ''reset''))) init
       = Some (init\<lparr>receiver := VReturned (Some (XNew ''error reading from stream'' (Failure ''reset'')))\<rparr>)
   \<and> receiver (init\<lparr>receiver := VDial m0 1\<rparr>) = VDial m0 1
   \<and> exec go_lib [V_Dial (Some (Failure ''refused'')), V_Reply (Some (Failure ''broken''))]
        (init\<lparr>receiver := VDial m0 1\<rparr>)
       = Some (init\<lparr>stream_sends := [(\<lparr>RequestId = 1, Data = [], ShouldClose = True\<rparr>, Some (Failure ''broken''))],
                    receiver := VRecv\<rparr>)"
  using ReceiveData_termination [where L = go_lib and s = "init\<lparr>receiver := VSelect m0\<rparr>" and m = m0
      and c = canceled_ctx and cs = "Some (Failure ''half-close'')"
      and a = "V_Recv (Inl (Failure ''reset''))" and t = init
      and t' = "init\<lparr>receiver := VReturned (Some (XNew ''error reading from stream'' (Failure ''reset'')))\<rparr>"
      and r = "Some (XNew ''error reading from stream'' (Failure ''reset''))"
      and u = "init\<lparr>receiver := VDial m0 1\<rparr>" and m' = m0 and i = 1
      and derr = "Failure ''refused''" and res = "Some (Failure ''broken'')"]
    ReceiveData_termination [where L = go_lib and s = "init\<lparr>receiver := VSelect m0\<rparr>" and m = m0
      and c = "\<lparr>Err = Some DeadlineExceeded, Cause = Some (CtxErr DeadlineExceeded)\<rparr>"
      and cs = "Some (Failure ''half-close'')"]
    ReceiveData_termination [where L = go_lib and s = "init\<lparr>receiver := VSelect m0\<rparr>" and m = m0
      and c = "\<lparr>Err = Some DeadlineExceeded, Cause = Some (CtxErr DeadlineExceeded)\<rparr>" and cs = None]
  by (simp add: init_def canceled_ctx_def cancel_def background_def go_lib_simps v_recv_def)

text \<open>
  Claim C2, as stated, fails after \<^verbatim>\<open>Tunnel\<close> cancelled the context with a cause: \<^verbatim>\<open>Err()\<close> is
  \<^verbatim>\<open>Canceled\<close>, the cause is an error, and the loop returns the result of \<^verbatim>\<open>CloseSend\<close> alone:
  \<^verbatim>\<open>nil\<close> when the half-close succeeds, and the half-close error, not the cause wrapped with
  it, when it fails. After a plain cancel a failing \<^verbatim>\<open>CloseSend\<close> makes the loop return that
  error.
\<close>

theorem ReceiveData_cause_counterexample:
  "Err failed_ctx = Some Canceled \<and> Cause failed_ctx = Some init_failure
   \<and> exec go_lib [V_Recv (Inr m0), V_Select failed_ctx None] init
       = Some (init\<lparr>receiver := VReturned None\<rparr>)
   \<and> exec go_lib [V_Recv (Inr m0), V_Select failed_ctx (Some (Failure ''half-close''))] init
       = Some (init\<lparr>receiver := VReturned (Some (Failure ''half-close''))\<rparr>)
   \<and> WithWrapper go_lib (Some init_failure) (Some (Failure ''half-close'')) \<noteq> Some (Failure ''half-close'')
   \<and> exec go_lib [V_Recv (Inr m0), V_Select canceled_ctx (Some (Failure ''half-close''))] init
       = Some (init\<lparr>receiver := VReturned (Some (Failure ''half-close''))\<rparr>)"
  by (simp add: failed_ctx_def canceled_ctx_def cancel_def background_def init_def v_recv_def v_select_def
      go_lib_simps init_failure_def)

text \<open>
  Claim C6. An inbound frame whose id is not in the registry and whose dial fails: the
  Receive Loop calls \<^verbatim>\<open>stream.Send\<close> once, with that id, \<open>ShouldClose\<close> true and no payload,
  leaves the registry and the readers as they are, and is back at \<^verbatim>\<open>Recv\<close>. In every
  reachable state where the loop waits for the dial or sends the reply, the id has no
  session and no reader, whatever the other goroutines did meanwhile.
\<close>

theorem ReceiveData_dial_failure:
  "(receiver s = VSelect m \<and> Err c = None \<and> sessions s (uuid_Parse L (RequestId_in m)) = None \<longrightarrow>
      exec L [V_Select c cs, V_Dial (Some derr), V_Reply res] s =
        Some (s\<lparr>stream_sends := stream_sends s @
                   [(\<lparr>RequestId = uuid_Parse L (RequestId_in m), Data = [], ShouldClose = True\<rparr>, res)],
               receiver := VRecv\<rparr>))
   \<and> (exec L as init = Some t \<and> (receiver t = VDial m' i \<or> receiver t = VReply i) \<longrightarrow>
        sessions t i = None \<and> readers t i = None)"
proof (intro conjI impI)
  assume "receiver s = VSelect m \<and> Err c = None \<and> sessions s (uuid_Parse L (RequestId_in m)) = None"
  then show "exec L [V_Select c cs, V_Dial (Some derr), V_Reply res] s =
        Some (s\<lparr>stream_sends := stream_sends s @
                   [(\<lparr>RequestId = uuid_Parse L (RequestId_in m), Data = [], ShouldClose = True\<rparr>, res)],
               receiver := VRecv\<rparr>)"
    by (simp add: v_select_def v_dial_def v_reply_def)
next
  assume h: "exec L as init = Some t \<and> (receiver t = VDial m' i \<or> receiver t = VReply i)"
  then have "invariant t" using inv_exec inv_init by blast
  then have ok: "ok t i" by (simp add: invariant_def)
  from h have new: "receiver_new (receiver t) i" by auto
  with ok have none: "sessions t i = None" by (rule ok_new_session)
  with ok show "sessions t i = None" "readers t i = None" by (simp_all add: ok_def)
qed

theorem ReceiveData_dial_failure_witness:
  "receiver (init\<lparr>receiver := VSelect m0\<rparr>) = VSelect m0 \<and> Err background = None
   \<and> sessions (init\<lparr>receiver := VSelect m0\<rparr>) (uuid_Parse go_lib (RequestId_in m0)) = None
   \<and> exec go_lib [V_Select background None, V_Dial (Some (Failure ''refused'')), V_Reply None]
        (init\<lparr>receiver := VSelect m0\<rparr>)
      = Some (init\<lparr>stream_sends := [(\<lparr>RequestId = 1, Data = [], ShouldClose = True\<rparr>, None)],
                   receiver := VRecv\<rparr>)
   \<and> exec go_lib [V_Recv (Inr m0), V_Select background None] init = Some (init\<lparr>receiver := VDial m0 1\<rparr>)
   \<and> sessions (init\<lparr>receiver := VDial m0 1\<rparr>) 1 = None
   \<and> readers (init\<lparr>receiver := VDial m0 1\<rparr>) 1 = None"
  using ReceiveData_dial_failure [where L = go_lib and s = "init\<lparr>receiver := VSelect m0\<rparr>" and m = m0
      and c = background and cs = None and derr = "Failure ''refused''" and res = None
      and as = "[V_Recv (Inr m0), V_Select background None]" and t = "init\<lparr>receiver := VDial m0 1\<rparr>"
      and m' = m0 and i = 1]
  by (simp add: init_def background_def go_lib_simps m0_def v_recv_def v_select_def)

lemma returned_reader_stays:
  assumes "step L a s = Some s'" and "invariant s" and "readers s i = Some RDone"
  shows "readers s' i = Some RDone \<and> a \<noteq> Publish i"
proof -
  from assms(2) have ok: "ok s i" by (simp add: invariant_def)
  with assms(3) obtain x where x: "sessions s i = Some x" using ok_reader_session by blast
  with ok have nn: "\<not> receiver_new (receiver s) i" by (simp add: ok_def)
  show ?thesis
  proof (cases a)
    case (V_Dial r)
    with assms(1) nn assms(3) show ?thesis by (cases r) (auto simp: v_dial_Some)
  next
    case (V_Select c cs)
    with assms(1) assms(3) show ?thesis
      by (cases "Err c") (auto simp: v_select_Some split: option.splits if_splits)
  next
    case V_Handle
    with assms(1) assms(3) show ?thesis by (auto simp: v_handle_Some split: if_splits)
  next
    case (V_HWrite r)
    with assms(1) assms(3) show ?thesis by (auto simp: v_hwrite_Some split: if_splits)
  next
    case (R_Write j n w)
    with assms(1) assms(3) show ?thesis by (auto simp: r_write_Some split: if_splits)
  qed (use assms in \<open>auto simp: r_read_Some r_mark_closed_Some r_select_Some r_lock_Some
      r_unlock_Some publish_Some s_done_Some s_lock_Some s_drain_Some s_build_Some s_unlock_Some
      s_send_Some v_recv_Some v_reply_Some v_hlock_Some v_hunlock_Some split: if_splits\<close>)
qed

lemma returned_reader_never_publishes:
  "exec L as s = Some t \<Longrightarrow> invariant s \<Longrightarrow> readers s i = Some RDone \<Longrightarrow>
   readers t i = Some RDone \<and> Publish i \<notin> set as"
proof (induction as arbitrary: s)
  case Nil
  then show ?case by simp
next
  case (Cons a as)
  from Cons.prems(1) obtain s1 where a: "step L a s = Some s1" and rest: "exec L as s1 = Some t"
    by (auto split: option.splits)
  from a Cons.prems(2,3) have "readers s1 i = Some RDone" "a \<noteq> Publish i"
    using returned_reader_stays by blast+
  moreover from a Cons.prems(2) have "invariant s1" by (rule inv_step)
  ultimately show ?case using Cons.IH [OF rest] by auto
qed

text \<open>
  Claim C10. When the append to the session buffer reports an error, the reader unlocks
  and returns: the session's \<open>Open\<close> flag is as before, nothing is published and nothing is
  sent, and in no continuation of the run is the session published again. On the path of
  a failed read of the connection the reader clears \<open>Open\<close> and publishes once more.
\<close>

theorem ReadFromSession_write_error:
  "(exec L as init = Some s \<and> readers s i = Some (RWrite c) \<and> c \<noteq> [] \<and> sessions s i = Some x \<longrightarrow>
      exec L [R_Write i n (Some werr), R_Unlock i] s =
        Some (s\<lparr>sessions := (sessions s)(i := Some (x\<lparr>Buf := Buf x @ take n c, Mutex := None\<rparr>)),
               readers := (readers s)(i := Some RDone)\<rparr>)
      \<and> (\<forall>bs t. exec L ([R_Write i n (Some werr), R_Unlock i] @ bs) s = Some t \<longrightarrow>
            readers t i = Some RDone \<and> Publish i \<notin> set bs))
   \<and> (readers u j = Some RRead \<and> sessions u j = Some y \<and> sender u = SSelect \<longrightarrow>
        exec L [R_Read j d (Some rerr), R_MarkClosed j, Publish j] u =
          Some (u\<lparr>sessions := (sessions u)(j := Some (y\<lparr>Open := False\<rparr>)),
                 readers := (readers u)(j := Some RDone),
                 chunks := (chunks u)(j := chunks u j @ [d]),
                 sender := SLock j\<rparr>))"
proof -
  have A: "exec L [R_Write i n (Some werr), R_Unlock i] s =
        Some (s\<lparr>sessions := (sessions s)(i := Some (x\<lparr>Buf := Buf x @ take n c, Mutex := None\<rparr>)),
               readers := (readers s)(i := Some RDone)\<rparr>)
      \<and> (\<forall>bs t. exec L ([R_Write i n (Some werr), R_Unlock i] @ bs) s = Some t \<longrightarrow>
            readers t i = Some RDone \<and> Publish i \<notin> set bs)"
    if h: "exec L as init = Some s \<and> readers s i = Some (RWrite c) \<and> c \<noteq> [] \<and> sessions s i = Some x"
  proof (intro conjI allI impI)
    let ?s' = "s\<lparr>sessions := (sessions s)(i := Some (x\<lparr>Buf := Buf x @ take n c, Mutex := None\<rparr>)),
               readers := (readers s)(i := Some RDone)\<rparr>"
    from h show run: "exec L [R_Write i n (Some werr), R_Unlock i] s = Some ?s'"
      by (simp add: r_write_def r_unlock_def upd_def)
    from h have "invariant s" using inv_exec inv_init by blast
    with run have inv: "invariant ?s'" using inv_exec by blast
    fix bs t
    assume t: "exec L ([R_Write i n (Some werr), R_Unlock i] @ bs) s = Some t"
    with h have "exec L bs ?s' = Some t"
      by (simp add: r_write_def r_unlock_def upd_def)
    from returned_reader_never_publishes [OF this inv]
    show "readers t i = Some RDone" "Publish i \<notin> set bs" by simp_all
  qed
  have B: "exec L [R_Read j d (Some rerr), R_MarkClosed j, Publish j] u =
          Some (u\<lparr>sessions := (sessions u)(j := Some (y\<lparr>Open := False\<rparr>)),
                 readers := (readers u)(j := Some RDone),
                 chunks := (chunks u)(j := chunks u j @ [d]),
                 sender := SLock j\<rparr>)"
    if "readers u j = Some RRead \<and> sessions u j = Some y \<and> sender u = SSelect"
    using that by (simp add: r_read_def r_mark_closed_def publish_def upd_def)
  from A B show ?thesis by blast
qed

lemma exec_append: "exec L (as @ bs) s = (case exec L as s of None \<Rightarrow> None | Some s' \<Rightarrow> exec L bs s')"
  by (induction as arbitrary: s) (auto split: option.splits)

lemma exec_opened: "exec go_lib opened init = Some s_open"
  by (simp add: opened_def s_open_def session1_def init_def m0_def go_lib_simps background_def
      step_defs upd_def NewSessionFromStream_def)

lemma exec_reading: "exec go_lib reading init = Some s_reading"
  by (simp add: reading_def exec_append exec_opened)
     (simp add: s_reading_def s_open_def session1_def step_defs upd_def)

lemma exec_published: "exec go_lib published init = Some s_published"
  by (simp add: published_def exec_append exec_reading)
     (simp add: s_published_def s_reading_def s_open_def session1_def step_defs upd_def)

theorem ReadFromSession_write_error_witness:
  "exec go_lib reading init = Some s_reading \<and> readers s_reading 1 = Some (RWrite [7, 8])
   \<and> sessions s_reading 1 = Some (session1\<lparr>Mutex := Some Reader\<rparr>)
   \<and> exec go_lib [R_Write 1 1 (Some (Failure ''too large'')), R_Unlock 1] s_reading =
       Some (s_reading\<lparr>sessions := (sessions s_reading)(1 := Some (session1\<lparr>Buf := [7], Mutex := None\<rparr>)),
                       readers := (readers s_reading)(1 := Some RDone)\<rparr>)
   \<and> Open (session1\<lparr>Buf := [7], Mutex := None\<rparr>) = True
   \<and> exec go_lib ([R_Write 1 1 (Some (Failure ''too large'')), R_Unlock 1] @ [S_Done canceled_ctx]) s_reading
       = Some (s_reading\<lparr>sessions := (sessions s_reading)(1 := Some (session1\<lparr>Buf := [7], Mutex := None\<rparr>)),
                       readers := (readers s_reading)(1 := Some RDone), sender := SReturned None\<rparr>)
   \<and> readers s_open 1 = Some RRead \<and> sessions s_open 1 = Some session1 \<and> sender s_open = SSelect
   \<and> exec go_lib [R_Read 1 [] (Some EOF), R_MarkClosed 1, Publish 1] s_open =
       Some (s_open\<lparr>sessions := (sessions s_open)(1 := Some (session1\<lparr>Open := False\<rparr>)),
                    readers := (readers s_open)(1 := Some RDone),
                    chunks := (chunks s_open)(1 := chunks s_open 1 @ [[]]),
                    sender := SLock 1\<rparr>)"
  using ReadFromSession_write_error [where L = go_lib and as = reading and s = s_reading and i = 1
      and c = "[7, 8]" and x = "session1\<lparr>Mutex := Some Reader\<rparr>" and n = 1
      and werr = "Failure ''too large''" and u = s_open and j = 1 and y = session1 and d = "[]"
      and rerr = EOF] exec_reading
  by (simp add: s_reading_def s_open_def session1_def s_done_def canceled_ctx_def cancel_def
      background_def r_write_def r_unlock_def upd_def)

lemma held_iff_owner:
  assumes "invariant s"
  shows "held s t j \<longleftrightarrow> sessions s j \<noteq> None \<and> owner s j = [t]"
proof (cases "sessions s j")
  case None
  then show ?thesis by (simp add: held_def)
next
  case (Some x)
  from assms have "ok s j" by (simp add: invariant_def)
  with Some have "owner s j = (case Mutex x of None \<Rightarrow> [] | Some t \<Rightarrow> [t])" by (simp add: ok_def)
  with Some show ?thesis by (cases "Mutex x") (auto simp: held_def)
qed

lemma held_Sender:
  assumes "invariant s"
  shows "held s Sender j \<longleftrightarrow> sender_cs (sender s) j"
proof
  assume "held s Sender j"
  with assms have "owner s j = [Sender]" by (simp add: held_iff_owner)
  then show "sender_cs (sender s) j"
    by (auto simp: owner_def split: option.splits if_splits)
next
  assume cs: "sender_cs (sender s) j"
  from assms have ok: "ok s j" by (simp add: invariant_def)
  from cs have "sender_on (sender s) j" by (rule sender_cs_on)
  with ok obtain x where x: "sessions s j = Some x" using ok_sender_session by blast
  with ok have "owner s j = (case Mutex x of None \<Rightarrow> [] | Some t \<Rightarrow> [t])" by (simp add: ok_def)
  with cs x show "held s Sender j"
    by (cases "Mutex x") (auto simp: owner_def held_def split: option.splits if_splits)
qed

lemma held_Receiver:
  assumes "invariant s"
  shows "held s Receiver j \<longleftrightarrow> receiver_cs (receiver s) j"
proof
  assume "held s Receiver j"
  with assms have "owner s j = [Receiver]" by (simp add: held_iff_owner)
  then show "receiver_cs (receiver s) j"
    by (auto simp: owner_def split: option.splits if_splits)
next
  assume cs: "receiver_cs (receiver s) j"
  from assms have ok: "ok s j" by (simp add: invariant_def)
  from cs have "receiver_on (receiver s) j" by (rule receiver_cs_on)
  with ok obtain x where x: "sessions s j = Some x" using ok_receiver_session by blast
  with ok have "owner s j = (case Mutex x of None \<Rightarrow> [] | Some t \<Rightarrow> [t])" by (simp add: ok_def)
  with cs x show "held s Receiver j"
    by (cases "Mutex x") (auto simp: owner_def held_def split: option.splits if_splits)
qed

lemma held_Reader:
  assumes "invariant s"
  shows "held s Reader j \<longleftrightarrow> (\<exists>pc. readers s j = Some pc \<and> reader_cs pc)"
proof
  assume "held s Reader j"
  with assms have "owner s j = [Reader]" by (simp add: held_iff_owner)
  then show "\<exists>pc. readers s j = Some pc \<and> reader_cs pc"
    by (auto simp: owner_def split: option.splits if_splits)
next
  assume "\<exists>pc. readers s j = Some pc \<and> reader_cs pc"
  then obtain pc where pc: "readers s j = Some pc" "reader_cs pc" by blast
  from assms have ok: "ok s j" by (simp add: invariant_def)
  with pc obtain x where x: "sessions s j = Some x" using ok_reader_session by blast
  with ok have "owner s j = (case Mutex x of None \<Rightarrow> [] | Some t \<Rightarrow> [t])" by (simp add: ok_def)
  with pc x show "held s Reader j"
    by (cases "Mutex x") (auto simp: owner_def held_def split: option.splits if_splits)
qed





lemma exec_writing: "exec go_lib writing init = Some s_writing"
  by (simp add: writing_def s_writing_def s_open_def session1_def init_def m0_def go_lib_simps
      background_def step_defs upd_def NewSessionFromStream_def)




text \<open>
  Claim C4, as stated, fails in \<^verbatim>\<open>handleStreamData\<close>: the write to the local socket is
  between \<^verbatim>\<open>session.Lock()\<close> and \<^verbatim>\<open>session.Unlock()\<close>.
\<close>

theorem handleStreamData_write_counterexample:
  "exec go_lib writing init = Some s_writing \<and> receiver s_writing = VHWrite m0 1
   \<and> held s_writing Receiver 1
   \<and> step go_lib (V_HWrite None) s_writing =
       Some (s_writing\<lparr>sessions := (\<lambda>_. None)(1 := Some (session1\<lparr>Mutex := Some Receiver\<rparr>)),
                       receiver := VHUnlock 1 None\<rparr>)
   \<and> held (s_writing\<lparr>sessions := (\<lambda>_. None)(1 := Some (session1\<lparr>Mutex := Some Receiver\<rparr>)),
                       receiver := VHUnlock 1 None\<rparr>) Receiver 1"
  using exec_writing
  by (simp add: s_writing_def s_open_def session1_def held_def v_hwrite_def upd_def m0_def)

text \<open>
  Claim C4, amended. In every state a run reaches, a goroutine that is about to send on
  the duplex channel (\<^verbatim>\<open>SendData\<close>'s frame, \<^verbatim>\<open>ReceiveData\<close>'s reply), to receive from it, to
  dial, to read from the local socket, or to send or receive on the readiness channel
  holds no session lock. The write to the local socket in \<^verbatim>\<open>handleStreamData\<close> is made with
  the session's lock held.
\<close>

theorem locks_and_blocking_calls:
  "exec L as init = Some s \<longrightarrow>
     (\<forall>resp j. sender s = SSend resp \<longrightarrow> \<not> held s Sender j)
   \<and> (\<forall>i j. receiver s = VReply i \<longrightarrow> \<not> held s Receiver j)
   \<and> (\<forall>j. receiver s = VRecv \<longrightarrow> \<not> held s Receiver j)
   \<and> (\<forall>m i j. receiver s = VDial m i \<longrightarrow> \<not> held s Receiver j)
   \<and> (\<forall>i. readers s i = Some RRead \<longrightarrow> \<not> held s Reader i)
   \<and> (\<forall>i. readers s i = Some RPublish \<or> readers s i = Some RPublishLast \<longrightarrow> \<not> held s Reader i)
   \<and> (\<forall>j. sender s = SSelect \<longrightarrow> \<not> held s Sender j)
   \<and> (\<forall>m i. receiver s = VHWrite m i \<longrightarrow> held s Receiver i)"
proof
  assume "exec L as init = Some s"
  then have inv: "invariant s" using inv_exec inv_init by blast
  show "(\<forall>resp j. sender s = SSend resp \<longrightarrow> \<not> held s Sender j)
   \<and> (\<forall>i j. receiver s = VReply i \<longrightarrow> \<not> held s Receiver j)
   \<and> (\<forall>j. receiver s = VRecv \<longrightarrow> \<not> held s Receiver j)
   \<and> (\<forall>m i j. receiver s = VDial m i \<longrightarrow> \<not> held s Receiver j)
   \<and> (\<forall>i. readers s i = Some RRead \<longrightarrow> \<not> held s Reader i)
   \<and> (\<forall>i. readers s i = Some RPublish \<or> readers s i = Some RPublishLast \<longrightarrow> \<not> held s Reader i)
   \<and> (\<forall>j. sender s = SSelect \<longrightarrow> \<not> held s Sender j)
   \<and> (\<forall>m i. receiver s = VHWrite m i \<longrightarrow> held s Receiver i)"
    by (auto simp: held_Sender [OF inv] held_Receiver [OF inv] held_Reader [OF inv])
qed

lemma exec_sending: "exec go_lib sending init = Some s_sending"
  by (simp add: sending_def exec_append exec_published)
     (simp add: s_sending_def s_published_def s_open_def session1_def step_defs upd_def Buf_Read_def)

theorem locks_and_blocking_calls_witness:
  "exec go_lib sending init = Some s_sending
   \<and> sender s_sending = SSend \<lparr>RequestId = 1, Data = [7, 8], ShouldClose = False\<rparr>
   \<and> \<not> held s_sending Sender 1
   \<and> exec go_lib published init = Some s_published
   \<and> readers s_published 1 = Some RRead \<and> \<not> held s_published Reader 1
   \<and> receiver s_published = VRecv \<and> \<not> held s_published Receiver 1
   \<and> exec go_lib writing init = Some s_writing
   \<and> receiver s_writing = VHWrite m0 1 \<and> held s_writing Receiver 1"
  using locks_and_blocking_calls [of go_lib published s_published]
    locks_and_blocking_calls [of go_lib writing s_writing]
    locks_and_blocking_calls [of go_lib sending s_sending]
    exec_published exec_writing exec_sending
  by (simp add: s_published_def s_writing_def s_sending_def s_open_def session1_def held_def)



lemma lost_nil: "(\<And>a t. a \<in> set as \<Longrightarrow> dropped_by i a t = []) \<Longrightarrow> lost L i as s = []"
  by (induction as arbitrary: s) (auto split: option.splits)




lemma lost_delivered: "lost L i delivered s = []"
  by (rule lost_nil) (auto simp: delivered_def published_def reading_def opened_def)









section \<open>The claims about the orchestrator\<close>

lemma cancel_twice [simp]: "cancel c (cancel c' ctx) = cancel c' ctx"
  by (simp add: cancel_def)

lemma launch_alike:
  "list_all2 (alike L) ps ps' \<Longrightarrow>
   fst (launch pc k ctx ps') = fst (launch pc k ctx ps)
   \<and> list_all2 (alike L) (snd (launch pc k ctx ps)) (snd (launch pc k ctx ps'))"
proof (induction ps ps' arbitrary: k ctx rule: list_all2_induct)
  case Nil
  show ?case by simp
next
  case (Cons p ps p' ps')
  let ?c = "if pc = Some k then cancel None ctx else ctx"
  from Cons.hyps(1) have e: "InitTunnel_err p' = InitTunnel_err p" "Send_err p' = Send_err p"
    by (simp_all add: alike_def)
  from Cons.IH [of "Suc k" ?c] Cons.hyps(1) e show ?case
    by (cases "InitTunnel_err p"; cases "Send_err p")
       (simp_all add: Let_def split_beta)
qed

lemma joined_alike: "list_all2 (alike L) ps ps' \<Longrightarrow> joined L ps' = joined L ps"
proof (induction ps ps' rule: list_all2_induct)
  case Nil
  show ?case by simp
next
  case (Cons p ps p' ps')
  from Cons.hyps(1) have "map_option fst (pair_result L p') = map_option fst (pair_result L p)"
    by (simp add: alike_def)
  then show ?case unfolding joined.simps Cons.IH by (simp only:)
qed

text \<open>
  Claim C9. Two calls of \<^verbatim>\<open>Tunnel\<close> that differ only in what the Receive Loops return (both
  loops of every started pair returning in both) return the same value and end with the
  same shared context: the value of \<^verbatim>\<open>ReceiveData\<close> reaches neither.
\<close>

theorem Tunnel_ignores_ReceiveData:
  assumes "Dial_err E' = Dial_err E" and "parent_cancel E' = parent_cancel E"
    and "finished E' = finished E" and "list_all2 (alike L) (pairs E) (pairs E')"
  shows "Tunnel L E' = Tunnel L E \<and> final_context E' = final_context E"
proof -
  from launch_alike [OF assms(4), of "parent_cancel E" 0 background]
  have c: "fst (launch (parent_cancel E) 0 background (pairs E'))
           = fst (launch (parent_cancel E) 0 background (pairs E))"
    and l: "list_all2 (alike L) (launched E) (launched E')"
    by (simp_all add: launched_def assms(2))
  from c have fc: "final_context E' = final_context E"
    by (simp add: final_context_def assms(2))
  from l have "joined L (launched E') = joined L (launched E)" by (rule joined_alike)
  then have "Tunnel L E' = Tunnel L E"
    unfolding Tunnel_def send_errors_def fc assms(1) assms(3) by (simp only:)
  with fc show ?thesis by simp
qed

lemma pair_result_broken:
  "pair_result go_lib \<lparr>InitTunnel_err = None, Send_err = None,
      schedule = [V_Recv (Inl (Failure ''reset'')), S_Done canceled_ctx]\<rparr>
   = Some (None, Some (XNew ''error reading from stream'' (Failure ''reset'')))"
  by (simp add: pair_result_def init_def v_recv_def s_done_def canceled_ctx_def cancel_def background_def)

lemma pair_result_quiet:
  "pair_result go_lib \<lparr>InitTunnel_err = None, Send_err = None,
      schedule = [V_Recv (Inr m0), V_Select canceled_ctx None, S_Done canceled_ctx]\<rparr>
   = Some (None, None)"
  by (simp add: pair_result_def init_def v_recv_def v_select_def s_done_def canceled_ctx_def
      cancel_def background_def)

theorem Tunnel_ignores_ReceiveData_witness:
  "Dial_err E_quiet = Dial_err E_broken \<and> parent_cancel E_quiet = parent_cancel E_broken
   \<and> finished E_quiet = finished E_broken \<and> list_all2 (alike go_lib) (pairs E_broken) (pairs E_quiet)
   \<and> map (pair_result go_lib) (pairs E_broken)
       = [Some (None, Some (XNew ''error reading from stream'' (Failure ''reset'')))]
   \<and> map (pair_result go_lib) (pairs E_quiet) = [Some (None, None)]
   \<and> Tunnel go_lib E_broken = Some None \<and> Tunnel go_lib E_quiet = Some None
   \<and> final_context E_broken = background \<and> final_context E_quiet = background"
proof -
  have h: "Dial_err E_quiet = Dial_err E_broken" "parent_cancel E_quiet = parent_cancel E_broken"
    "finished E_quiet = finished E_broken" "list_all2 (alike go_lib) (pairs E_broken) (pairs E_quiet)"
    by (simp_all add: E_quiet_def E_broken_def alike_def pair_result_broken pair_result_quiet)
  have q: "Tunnel go_lib E_quiet = Some None" "final_context E_quiet = background"
    by (simp_all add: Tunnel_def E_quiet_def launched_def final_context_def send_errors_def
        pair_result_quiet go_lib_simps background_def)
  from Tunnel_ignores_ReceiveData [OF h] h q show ?thesis
    by (simp add: E_quiet_def E_broken_def pair_result_broken pair_result_quiet)
qed

lemma launch_all_ok:
  "list_all init_ok ps \<Longrightarrow>
   snd (launch pc k ctx ps) = ps
   \<and> (fst (launch pc k ctx ps) = ctx \<or> pc \<noteq> None \<and> fst (launch pc k ctx ps) = cancel None ctx)"
proof (induction ps arbitrary: k ctx)
  case Nil
  show ?case by simp
next
  case (Cons p ps)
  let ?c = "if pc = Some k then cancel None ctx else ctx"
  from Cons.prems have ps: "list_all init_ok ps" and "init_ok p" by simp_all
  then have p: "InitTunnel_err p = None" "Send_err p = None"
    by (simp_all add: init_ok_def)
  from Cons.IH [OF ps, of "Suc k" ?c] p show ?case
    by (auto simp: Let_def split_beta)
qed

lemma launch_first_failure:
  "list_all init_ok pre \<Longrightarrow> \<not> init_ok p \<Longrightarrow>
   launch None k ctx (pre @ p # post) =
     (cancel (Some (case InitTunnel_err p of
                      Some err \<Rightarrow> XNew ''failed initializing tunnel'' err
                    | None \<Rightarrow> XNew ''failed sending initial tunnel request'' (the (Send_err p)))) ctx,
      pre)"
proof (induction pre arbitrary: k)
  case Nil
  then show ?case by (cases "InitTunnel_err p"; cases "Send_err p") (simp_all add: init_ok_def)
next
  case (Cons q pre)
  from Cons.prems have pre: "list_all init_ok pre" and "init_ok q" by simp_all
  then have q: "InitTunnel_err q = None" "Send_err q = None"
    by (simp_all add: init_ok_def)
  from Cons.IH [OF pre Cons.prems(2), of "Suc k"] q show ?case
    by simp
qed

lemma foldl_Append_nils:
  "Append L None None = None \<Longrightarrow> foldl (Append L) None (replicate n None) = None"
  by (induction n) simp_all

lemma Tunnel_drops_init_failure:
  assumes "Dial_err E = None" and "parent_cancel E = None" and "pairs E = pre @ p # post"
    and "list_all init_ok pre" and "InitTunnel_err p = Some err"
    and "joined go_lib pre = Some errs" and "sort (finished E) = [0..<length errs]"
    and "\<forall>k \<in> set (finished E). errs ! k = None"
  shows "Cause (final_context E) = Some (XNew ''failed initializing tunnel'' err)
         \<and> Tunnel go_lib E = Some None"
proof -
  from assms(5) have "\<not> init_ok p" by (simp add: init_ok_def)
  with assms(2-5) launch_first_failure [of pre p 0 background post]
  have l: "launched E = pre"
    and c: "Cause (final_context E) = Some (XNew ''failed initializing tunnel'' err)"
    by (simp_all add: launched_def final_context_def cancel_def background_def)
  from assms(8) have "map (\<lambda>k. errs ! k) (finished E) = replicate (length (finished E)) None"
    by (simp add: map_replicate_const [symmetric] cong: map_cong)
  moreover have "foldl (Append go_lib) None (replicate n None) = None" for n
    by (rule foldl_Append_nils) (simp add: go_lib_simps)
  ultimately have "send_errors go_lib E errs = None"
    by (simp add: send_errors_def)
  with assms(1,6,7) l c show ?thesis
    by (simp add: Tunnel_def go_lib_simps)
qed

text \<open>
  Claim C1. The code at the inputs where it departs from the claim. When \<^verbatim>\<open>InitTunnel\<close> (or
  the initial \<^verbatim>\<open>Send\<close>) of a pair fails, \<^verbatim>\<open>Tunnel\<close> cancels the context with that failure as
  the cause, and the cause is recorded; no Send Loop has failed, \<open>errs\<close> is \<^verbatim>\<open>nil\<close>, and
  \<^verbatim>\<open>WithWrapper(cause, nil)\<close> is \<^verbatim>\<open>nil\<close>: \<^verbatim>\<open>Tunnel\<close> returns \<^verbatim>\<open>nil\<close>, with one pair and with an
  earlier pair whose loops end on the cancellation. The cause is returned only when a Send
  Loop had failed before, wrapped around that error. After a plain cancel with no failure
  \<^verbatim>\<open>Tunnel\<close> returns \<^verbatim>\<open>nil\<close>, as the claim says.
\<close>

theorem Tunnel_init_failure_returns_nil:
  "Cause (final_context E_fail) = Some init_failure \<and> launched E_fail = []
   \<and> Tunnel go_lib E_fail = Some None
   \<and> Cause (final_context E_fail_send)
       = Some (XNew ''failed sending initial tunnel request'' (Failure ''broken pipe''))
   \<and> Tunnel go_lib E_fail_send = Some None
   \<and> Cause (final_context E_fail_second) = Some init_failure
   \<and> joined go_lib (launched E_fail_second) = Some [None]
   \<and> Tunnel go_lib E_fail_second = Some None
   \<and> Cause (final_context E_fail_sent) = Some init_failure
   \<and> joined go_lib (launched E_fail_sent) = Some [Some (Failure ''broken pipe'')]
   \<and> Tunnel go_lib E_fail_sent = Some (Some (Wrapped init_failure (Failure ''broken pipe'')))
   \<and> Cause (final_context E_cancel) = Some (CtxErr Canceled)
   \<and> Tunnel go_lib E_cancel = Some None"
proof -
  have sent: "pair_result go_lib \<lparr>InitTunnel_err = None, Send_err = None,
               schedule = sending @ [S_Send (Some (Failure ''broken pipe'')),
                                     V_Recv (Inl (Failure ''canceled''))]\<rparr>
              = Some (Some (Failure ''broken pipe''), Some (XNew ''error reading from stream'' (Failure ''canceled'')))"
    by (simp add: pair_result_def exec_append exec_sending)
       (simp add: s_sending_def s_open_def s_send_def v_recv_def)
  have second: "pair_result go_lib \<lparr>InitTunnel_err = None, Send_err = None,
               schedule = [V_Recv (Inl (Failure ''canceled'')), S_Done failed_ctx]\<rparr>
              = Some (None, Some (XNew ''error reading from stream'' (Failure ''canceled'')))"
    by (simp add: pair_result_def init_def v_recv_def s_done_def failed_ctx_def cancel_def background_def)
  show ?thesis
    by (simp add: Tunnel_def E_cancel_def E_fail_def E_fail_send_def E_fail_second_def E_fail_sent_def
        launched_def final_context_def send_errors_def sent second pair_result_quiet
        cancel_def background_def go_lib_simps init_failure_def)
qed

end
